theory Spec2Isabelle
  imports Main "HOL-Library.Sublist"
begin

section \<open>A shallow embedding of scraper.py\<close>

text \<open>
  The scraper walks a paginated HTML listing. Its collaborators (the HTTP client, the HTML
  parser with its CSS selector engine, and the URL parser of the standard library) are
  not part of the repository; they are the fields of an environment record, and every
  theorem below holds for every environment. Python strings are modelled as
  \<^typ>\<open>string\<close>; the only characters the program inspects are ASCII.
\<close>

subsection \<open>String operations of the Python runtime\<close>

text \<open>\<^verbatim>\<open>s.startswith(p)\<close> and \<^verbatim>\<open>s.endswith(p)\<close>.\<close>

fun startswith :: "string \<Rightarrow> string \<Rightarrow> bool" where
  "startswith s [] = True"
| "startswith [] (p # ps) = False"
| "startswith (c # cs) (p # ps) = (c = p \<and> startswith cs ps)"

definition endswith :: "string \<Rightarrow> string \<Rightarrow> bool" where
  "endswith s p = startswith (rev s) (rev p)"

text \<open>\<^verbatim>\<open>s.rstrip("/")\<close>: every trailing occurrence of the character is removed.\<close>

definition rstrip_char :: "char \<Rightarrow> string \<Rightarrow> string" where
  "rstrip_char c s = rev (dropWhile (\<lambda>x. x = c) (rev s))"

text \<open>
  \<^verbatim>\<open>s.rsplit(c, 1)\<close> for a one-character separator: the string is cut at the last
  occurrence of the separator; without an occurrence the result is the one-element list
  holding the string itself.
\<close>

definition rsplit1 :: "char \<Rightarrow> string \<Rightarrow> string list" where
  "rsplit1 c s =
     (if c \<in> set s
      then [rev (tl (dropWhile (\<lambda>x. x \<noteq> c) (rev s))), rev (takeWhile (\<lambda>x. x \<noteq> c) (rev s))]
      else [s])"

text \<open>
  \<^verbatim>\<open>s.strip()\<close>: leading and trailing whitespace is removed. The whitespace characters
  are the ASCII ones Python's \<^verbatim>\<open>str.isspace\<close> accepts: tab, line feed, vertical tab, form
  feed, carriage return, the four separators 0x1C to 0x1F, and the space.
\<close>

definition isspace :: "char \<Rightarrow> bool" where
  "isspace c = (let n = of_char c :: nat in (9 \<le> n \<and> n \<le> 13) \<or> (28 \<le> n \<and> n \<le> 32))"

definition strip :: "string \<Rightarrow> string" where
  "strip s = rev (dropWhile isspace (rev (dropWhile isspace s)))"

text \<open>\<^verbatim>\<open>sep.join(xs)\<close>.\<close>

fun str_join :: "string \<Rightarrow> string list \<Rightarrow> string" where
  "str_join sep [] = []"
| "str_join sep [x] = x"
| "str_join sep (x # y # ys) = x @ sep @ str_join sep (y # ys)"

subsection \<open>Configuration\<close>

text \<open>
  A field rule is one entry of \<^verbatim>\<open>config["fields"]\<close>: the required \<^verbatim>\<open>selector\<close>, the
  optional \<^verbatim>\<open>attr\<close> (\<^verbatim>\<open>field_cfg.get("attr")\<close>) and the truth value of
  \<^verbatim>\<open>field_cfg.get("multiple", False)\<close>.
\<close>

record field_rule =
  selector :: string
  attr :: "string option"
  multiple :: bool

text \<open>
  \<^verbatim>\<open>self.pagination\<close> is always a dictionary after \<^verbatim>\<open>__init__\<close>; a key that is absent is
  \<^term>\<open>None\<close> here, and a configuration without a \<^verbatim>\<open>pagination\<close> object has both absent.
\<close>

record pagination =
  max_pages :: "int option"
  next_page_selector :: "string option"

text \<open>
  A Python dictionary keeps its keys in insertion order: it is an association list, and
  \<^verbatim>\<open>d[k] = v\<close> replaces the value of a key that is present and appends a new key at the end.
\<close>

type_synonym ('k, 'v) dict = "('k \<times> 'v) list"

fun dict_set :: "('k, 'v) dict \<Rightarrow> 'k \<Rightarrow> 'v \<Rightarrow> ('k, 'v) dict" where
  "dict_set [] k v = [(k, v)]"
| "dict_set ((k', v') # d) k v = (if k' = k then (k, v) # d else (k', v') # dict_set d k v)"

definition dict_keys :: "('k, 'v) dict \<Rightarrow> 'k list" where
  "dict_keys d = map fst d"

definition dict_get :: "('k, 'v) dict \<Rightarrow> 'k \<Rightarrow> 'v option" where
  "dict_get d k = map_of d k"

text \<open>
  The configuration the constructor reads; \<open>fields_map\<close> is \<^verbatim>\<open>self.fields\<close> (the name
  \<open>fields\<close> is taken by the record package).
\<close>

record config =
  start_url :: string
  item_selector :: string
  fields_map :: "(string, field_rule) dict"
  pagination :: pagination
  delay :: nat

subsection \<open>Collaborators\<close>

text \<open>
  What \<^verbatim>\<open>requests.get\<close> followed by \<^verbatim>\<open>raise_for_status\<close> can raise is a
  \<^verbatim>\<open>requests.RequestException\<close>: a connection error, a timeout, or an HTTP error status.
\<close>

datatype request_exception = ConnectionError | Timeout | HTTPError nat

text \<open>
  The environment, over a type \<^typ>\<open>'n\<close> of parse-tree nodes:
  \<^item> \<open>http_get k url\<close> is the outcome of the \<open>k\<close>-th request of the run, made for \<open>url\<close>:
    the exception raised, or the response body as the tree the HTML parser builds from it;
  \<^item> \<open>css_select n sel\<close> is \<^verbatim>\<open>n.select(sel)\<close>, the nodes below \<open>n\<close> that match, in document order;
  \<^item> \<open>text_strip n\<close> is \<^verbatim>\<open>n.get_text(strip=True)\<close>;
  \<^item> \<open>attr_get n a\<close> is \<^verbatim>\<open>n.get(a)\<close>, absent when the node does not carry the attribute;
    the HTML library gives the value of a multi-valued attribute (\<open>class\<close>, \<open>rel\<close>, ...) as
    a list of strings and the value of any other attribute as a string;
  \<^item> \<open>url_base u\<close> is \<^verbatim>\<open>urlunparse((p.scheme, p.netloc, "", "", "", ""))\<close> for
    \<^verbatim>\<open>p = urlparse(u)\<close>: scheme and authority of \<open>u\<close>.
\<close>

datatype attr_val = AttrStr string | AttrList "string list"

record 'n env =
  http_get :: "nat \<Rightarrow> string \<Rightarrow> request_exception + 'n"
  css_select :: "'n \<Rightarrow> string \<Rightarrow> 'n list"
  text_strip :: "'n \<Rightarrow> string"
  attr_get :: "'n \<Rightarrow> string \<Rightarrow> attr_val option"
  url_base :: "string \<Rightarrow> string"

text \<open>
  The exceptions the program can raise and does not catch: \<^verbatim>\<open>AttributeError\<close>, when a
  string method is called on a list, and \<^verbatim>\<open>ValueError\<close>, from the CSV writer. A
  computation that can raise returns the exception (\<open>Inl\<close>) or its value (\<open>Inr\<close>).
\<close>

datatype py_exception = AttributeError | ValueError

text \<open>
  A list comprehension or a \<^verbatim>\<open>for\<close> loop that appends: the results of the elements in
  order, or the first exception raised.
\<close>

fun collect :: "('a \<Rightarrow> py_exception + 'b) \<Rightarrow> 'a list \<Rightarrow> py_exception + 'b list" where
  "collect f [] = Inr []"
| "collect f (x # xs) =
     (case f x of
        Inl exc \<Rightarrow> Inl exc
      | Inr y \<Rightarrow> (case collect f xs of Inl exc \<Rightarrow> Inl exc | Inr ys \<Rightarrow> Inr (y # ys)))"

text \<open>\<^verbatim>\<open>n.select_one(sel)\<close> is the first node of \<^verbatim>\<open>n.select(sel)\<close>, if there is one.\<close>

definition select_one :: "'n env \<Rightarrow> 'n \<Rightarrow> string \<Rightarrow> 'n option" where
  "select_one e n sel = (case css_select e n sel of [] \<Rightarrow> None | x # _ \<Rightarrow> Some x)"

subsection \<open>Next-URL resolution (scrape, lines 93 to 111)\<close>

definition resolve_next :: "'n env \<Rightarrow> string \<Rightarrow> string \<Rightarrow> string" where
  "resolve_next e current_url href =
     (if startswith href ''http://'' \<or> startswith href ''https://'' then href
      else if endswith current_url ''/'' \<and> startswith href ''/''
        then rstrip_char CHR ''/'' current_url @ href
      else if startswith href ''/'' then url_base e current_url @ href
      else if endswith current_url ''/'' then current_url @ href
      else hd (rsplit1 CHR ''/'' current_url) @ ''/'' @ href)"

subsection \<open>Field extraction (extract_field)\<close>

text \<open>
  The value of a field is a string or a list of strings, as the rule's \<open>multiple\<close> flag
  decides. A record is the dictionary \<^verbatim>\<open>row\<close>, from field names to values.
\<close>

datatype val = Str string | StrList "string list"

type_synonym row = "(string, val) dict"

text \<open>
  \<^verbatim>\<open>el.get(attr, "").strip()\<close>: the default is the empty string, a string value is
  stripped, and a list value has no \<^verbatim>\<open>strip\<close>, which raises \<^verbatim>\<open>AttributeError\<close>. The test
  \<^verbatim>\<open>if attr:\<close> asks for an attribute name that is set and not empty.
\<close>

definition attr_value :: "'n env \<Rightarrow> 'n \<Rightarrow> string \<Rightarrow> py_exception + string" where
  "attr_value e el a =
     (case attr_get e el a of
        None \<Rightarrow> Inr (strip [])
      | Some (AttrStr v) \<Rightarrow> Inr (strip v)
      | Some (AttrList vs) \<Rightarrow> Inl AttributeError)"

definition truthy :: "string option \<Rightarrow> bool" where
  "truthy a = (case a of None \<Rightarrow> False | Some s \<Rightarrow> s \<noteq> [])"

definition extract_field :: "'n env \<Rightarrow> 'n \<Rightarrow> field_rule \<Rightarrow> py_exception + val" where
  "extract_field e item field_cfg =
     (if multiple field_cfg then
        (let elements = css_select e item (selector field_cfg) in
         case attr field_cfg of
           None \<Rightarrow> Inr (StrList (map (text_strip e) elements))
         | Some a \<Rightarrow>
             if a \<noteq> [] then
               (case collect (\<lambda>el. attr_value e el a) elements of
                  Inl exc \<Rightarrow> Inl exc
                | Inr values \<Rightarrow> Inr (StrList values))
             else Inr (StrList (map (text_strip e) elements)))
      else
        (case select_one e item (selector field_cfg) of
           None \<Rightarrow> Inr (Str [])
         | Some element \<Rightarrow>
             (case attr field_cfg of
                None \<Rightarrow> Inr (Str (text_strip e element))
              | Some a \<Rightarrow>
                  if a \<noteq> [] then
                    (case attr_value e element a of
                       Inl exc \<Rightarrow> Inl exc
                     | Inr s \<Rightarrow> Inr (Str s))
                  else Inr (Str (text_strip e element)))))"

subsection \<open>The pagination loop (fetch_page, scrape)\<close>

text \<open>What the program prints, line by line.\<close>

datatype message =
    InfoFetching nat string
  | ErrorFetch string request_exception
  | InfoFound nat nat
  | InfoTotal nat
  | InfoSavedJson
  | WarnNoCsv
  | InfoSavedCsv

text \<open>
  \<open>fetch_page\<close> catches the request exception, prints it and returns \<^verbatim>\<open>None\<close>. The
  first argument is the ordinal of the request within the run; \<open>scrape\<close> makes exactly one
  request per iteration, so the ordinal is its \<^verbatim>\<open>page_index\<close>.
\<close>

definition fetch_page :: "'n env \<Rightarrow> nat \<Rightarrow> string \<Rightarrow> 'n option \<times> message list" where
  "fetch_page e k url =
     (case http_get e k url of
        Inl exc \<Rightarrow> (None, [ErrorFetch url exc])
      | Inr soup \<Rightarrow> (Some soup, []))"

text \<open>
  The inner loop of lines 77 to 79: one entry per field, in the order of the fields, set
  in the row built so far; an exception of the extractor ends it.
\<close>

fun build_fields ::
  "'n env \<Rightarrow> 'n \<Rightarrow> row \<Rightarrow> (string, field_rule) dict \<Rightarrow> py_exception + row" where
  "build_fields e item row [] = Inr row"
| "build_fields e item row ((field_name, field_cfg) # fs) =
     (case extract_field e item field_cfg of
        Inl exc \<Rightarrow> Inl exc
      | Inr v \<Rightarrow> build_fields e item (dict_set row field_name v) fs)"

definition build_row :: "'n env \<Rightarrow> config \<Rightarrow> 'n \<Rightarrow> py_exception + row" where
  "build_row e c item = build_fields e item [] (fields_map c)"

text \<open>\<^verbatim>\<open>int(self.pagination.get("max_pages", 0)) or None\<close>.\<close>

definition max_pages_of :: "pagination \<Rightarrow> int option" where
  "max_pages_of p =
     (case max_pages p of None \<Rightarrow> None | Some n \<Rightarrow> if n = 0 then None else Some n)"

text \<open>
  Lines 82 to 111, the pagination step after a page has been extracted: \<^term>\<open>None\<close> is a
  \<^verbatim>\<open>break\<close>, otherwise the result is the next value of \<^verbatim>\<open>current_url\<close>. An \<open>href\<close>
  that is absent, the empty string or the empty list is false; one that is a non-empty list
  passes the test and has no \<^verbatim>\<open>startswith\<close>.
\<close>

definition advance ::
  "'n env \<Rightarrow> config \<Rightarrow> nat \<Rightarrow> string \<Rightarrow> 'n \<Rightarrow> py_exception + string option" where
  "advance e c page_index current_url soup =
     (if (case max_pages_of (pagination c) of None \<Rightarrow> False | Some m \<Rightarrow> int page_index \<ge> m)
      then Inr None
      else if \<not> truthy (next_page_selector (pagination c)) then Inr None
      else
        (case next_page_selector (pagination c) of
           None \<Rightarrow> Inr None
         | Some next_selector \<Rightarrow>
             (case select_one e soup next_selector of
                None \<Rightarrow> Inr None
              | Some next_link \<Rightarrow>
                  (case attr_get e next_link ''href'' of
                     None \<Rightarrow> Inr None
                   | Some (AttrStr href) \<Rightarrow>
                       if href = [] then Inr None
                       else Inr (Some (resolve_next e current_url href))
                   | Some (AttrList hrefs) \<Rightarrow>
                       if hrefs = [] then Inr None else Inl AttributeError))))"

text \<open>
  The \<^verbatim>\<open>while current_url:\<close> loop. It need not end, so it runs on fuel, one unit per
  iteration: \<open>Returned\<close> is the loop left with its results and output, \<open>Pending\<close> is the
  state of the loop when the fuel is used up before the loop is left, and \<open>Raised\<close> is an
  exception that leaves \<open>scrape\<close>, with what was printed before it.
\<close>

datatype run =
    Returned "row list" "message list"
  | Pending string nat "row list" "message list"
  | Raised py_exception "message list"

fun scrape_loop ::
  "nat \<Rightarrow> 'n env \<Rightarrow> config \<Rightarrow> string \<Rightarrow> nat \<Rightarrow> row list \<Rightarrow> message list \<Rightarrow> run" where
  "scrape_loop 0 e c current_url page_index results out =
     (if current_url = [] then Returned results out
      else Pending current_url page_index results out)"
| "scrape_loop (Suc fuel) e c current_url page_index results out =
     (if current_url = [] then Returned results out
      else
        (case fetch_page e page_index current_url of
           (None, msgs) \<Rightarrow> Returned results (out @ [InfoFetching page_index current_url] @ msgs)
         | (Some soup, msgs) \<Rightarrow>
             (let items = css_select e soup (item_selector c);
                  out' = out @ [InfoFetching page_index current_url] @ msgs
                           @ [InfoFound (length items) page_index]
              in case collect (build_row e c) items of
                   Inl exc \<Rightarrow> Raised exc out'
                 | Inr rows \<Rightarrow>
                     (case advance e c page_index current_url soup of
                        Inl exc \<Rightarrow> Raised exc out'
                      | Inr None \<Rightarrow> Returned (results @ rows) out'
                      | Inr (Some next_url) \<Rightarrow>
                          scrape_loop fuel e c next_url (page_index + 1) (results @ rows) out'))))"

text \<open>
  \<open>scrape\<close>: the exception that left it with the output so far, or the results with the
  output; \<^term>\<open>None\<close> when the fuel does not suffice.
\<close>

definition scrape ::
  "nat \<Rightarrow> 'n env \<Rightarrow> config
     \<Rightarrow> (py_exception \<times> message list + row list \<times> message list) option" where
  "scrape fuel e c =
     (case scrape_loop fuel e c (start_url c) 1 [] [] of
        Returned results out \<Rightarrow> Some (Inr (results, out @ [InfoTotal (length results)]))
      | Pending _ _ _ _ \<Rightarrow> None
      | Raised exc out \<Rightarrow> Some (Inl (exc, out)))"

subsection \<open>Output (save_as_json, save_as_csv, main)\<close>

datatype json = JString string | JArray "json list" | JObject "(string \<times> json) list"




text \<open>\<^verbatim>\<open>", ".join(v) if isinstance(v, list) else v\<close>.\<close>

definition csv_cell :: "val \<Rightarrow> string" where
  "csv_cell v = (case v of Str s \<Rightarrow> s | StrList xs \<Rightarrow> str_join '', '' xs)"

definition row_to_write :: "row \<Rightarrow> (string, string) dict" where
  "row_to_write r = foldl (\<lambda>d (k, v). dict_set d k (csv_cell v)) [] r"

text \<open>
  \<^verbatim>\<open>csv.DictWriter.writerow\<close>: a key outside the field names raises \<^verbatim>\<open>ValueError\<close>;
  otherwise the cells are the values of the field names, in their order, a missing one
  being the empty string. A CSV document is the list of its rows of cells.
\<close>


definition writerow :: "string list \<Rightarrow> (string, string) dict \<Rightarrow> py_exception + string list" where
  "writerow fieldnames d =
     (if \<not> set (dict_keys d) \<subseteq> set fieldnames then Inl ValueError
      else Inr (map (\<lambda>k. case dict_get d k of None \<Rightarrow> [] | Some s \<Rightarrow> s) fieldnames))"

fun write_rows ::
  "string list \<Rightarrow> row list \<Rightarrow> string list list \<Rightarrow> py_exception option \<times> string list list" where
  "write_rows fieldnames [] doc = (None, doc)"
| "write_rows fieldnames (r # rs) doc =
     (case writerow fieldnames (row_to_write r) of
        Inl err \<Rightarrow> (Some err, doc)
      | Inr cells \<Rightarrow> write_rows fieldnames rs (doc @ [cells]))"

text \<open>
  The file written, if any, the lines printed, and the exception that ended the function,
  if any.
\<close>

definition save_as_csv ::
  "row list \<Rightarrow> string list list option \<times> message list \<times> py_exception option" where
  "save_as_csv rows =
     (case rows of
        [] \<Rightarrow> (None, [WarnNoCsv], None)
      | r0 # _ \<Rightarrow>
          (let fieldnames = dict_keys r0 in
           case write_rows fieldnames rows [fieldnames] of
             (None, doc) \<Rightarrow> (Some doc, [InfoSavedCsv], None)
           | (Some err, doc) \<Rightarrow> (Some doc, [], Some err)))"

record outputs =
  json_file :: "json option"
  csv_file :: "string list list option"
  printed :: "message list"
  raised :: "py_exception option"


subsection \<open>Observations on a run\<close>

text \<open>
  The requests of a run are the \<open>Fetching\<close> lines of its output, in order; the pages of a
  run are the trees of the requests that succeeded.
\<close>

fun fetch_calls :: "message list \<Rightarrow> (nat \<times> string) list" where
  "fetch_calls [] = []"
| "fetch_calls (InfoFetching k url # ms) = (k, url) # fetch_calls ms"
| "fetch_calls (_ # ms) = fetch_calls ms"

definition fetch_count :: "message list \<Rightarrow> nat" where
  "fetch_count out = length (fetch_calls out)"

definition fetched_pages :: "'n env \<Rightarrow> message list \<Rightarrow> 'n list" where
  "fetched_pages e out =
     concat (map (\<lambda>(k, url). case http_get e k url of Inl _ \<Rightarrow> [] | Inr soup \<Rightarrow> [soup])
       (fetch_calls out))"

text \<open>A run continued from rows and output that were there before.\<close>

fun run_prepend :: "row list \<Rightarrow> message list \<Rightarrow> run \<Rightarrow> run" where
  "run_prepend rs ms (Returned results out) = Returned (rs @ results) (ms @ out)"
| "run_prepend rs ms (Pending url k results out) = Pending url k (rs @ results) (ms @ out)"
| "run_prepend rs ms (Raised exc out) = Raised exc (ms @ out)"

fun run_rows :: "run \<Rightarrow> row list" where
  "run_rows (Returned results out) = results"
| "run_rows (Pending url k results out) = results"
| "run_rows (Raised exc out) = []"

fun run_out :: "run \<Rightarrow> message list" where
  "run_out (Returned results out) = out"
| "run_out (Pending url k results out) = out"
| "run_out (Raised exc out) = out"

fun raised_run :: "run \<Rightarrow> bool" where
  "raised_run (Raised exc out) = True"
| "raised_run _ = False"

text \<open>
  What one page contributes: for each selected item, in selection order, the row built
  from it, or the exception that building it raises.
\<close>

definition page_rows :: "'n env \<Rightarrow> config \<Rightarrow> 'n \<Rightarrow> (py_exception + row) list" where
  "page_rows e c soup = map (build_row e c) (css_select e soup (item_selector c))"

text \<open>
  One page after its fetch: the exception that extraction or the pagination step raises,
  or the rows of the page with the next URL, if any.
\<close>

definition page_step ::
  "'n env \<Rightarrow> config \<Rightarrow> nat \<Rightarrow> string \<Rightarrow> 'n \<Rightarrow> py_exception + row list \<times> string option" where
  "page_step e c page_index current_url soup =
     (case collect (build_row e c) (css_select e soup (item_selector c)) of
        Inl exc \<Rightarrow> Inl exc
      | Inr rows \<Rightarrow>
          (case advance e c page_index current_url soup of
             Inl exc \<Rightarrow> Inl exc
           | Inr next_url \<Rightarrow> Inr (rows, next_url)))"

text \<open>
  A page has a valid next link when the next-page selector is set and the first node it
  selects on the page carries an \<open>href\<close> that is a non-empty string.
\<close>

definition valid_next_link :: "'n env \<Rightarrow> config \<Rightarrow> 'n \<Rightarrow> bool" where
  "valid_next_link e c soup =
     (case next_page_selector (pagination c) of
        None \<Rightarrow> False
      | Some sel \<Rightarrow>
          sel \<noteq> [] \<and>
          (case select_one e soup sel of
             None \<Rightarrow> False
           | Some a \<Rightarrow>
               (case attr_get e a ''href'' of
                  None \<Rightarrow> False
                | Some (AttrStr h) \<Rightarrow> h \<noteq> []
                | Some (AttrList hs) \<Rightarrow> False)))"

text \<open>A request that succeeds and whose page has a valid next link.\<close>

definition answers_with_link :: "'n env \<Rightarrow> config \<Rightarrow> nat \<times> string \<Rightarrow> bool" where
  "answers_with_link e c call =
     (case http_get e (fst call) (snd call) of
        Inl _ \<Rightarrow> False
      | Inr soup \<Rightarrow> valid_next_link e c soup)"

text \<open>The shape of a value: a single string, or a sequence of strings.\<close>

definition is_list :: "val \<Rightarrow> bool" where
  "is_list v = (case v of Str _ \<Rightarrow> False | StrList _ \<Rightarrow> True)"

text \<open>
  Everything in a URL up to and including its last slash (nothing, when it has none), and
  whether an href is relative: neither absolute nor rooted.
\<close>

definition upto_last_slash :: "string \<Rightarrow> string" where
  "upto_last_slash u = rev (dropWhile (\<lambda>x. x \<noteq> CHR ''/'') (rev u))"

definition relative_href :: "string \<Rightarrow> bool" where
  "relative_href h =
     (\<not> prefix ''http://'' h \<and> \<not> prefix ''https://'' h \<and> \<not> prefix ''/'' h)"

text \<open>
  A string is whitespace-collapsed when it has no whitespace at either end and no two
  whitespace characters in a row.
\<close>

fun no_space_run :: "string \<Rightarrow> bool" where
  "no_space_run (a # b # s) = (\<not> (isspace a \<and> isspace b) \<and> no_space_run (b # s))"
| "no_space_run _ = True"

definition ws_collapsed :: "string \<Rightarrow> bool" where
  "ws_collapsed s = (strip s = s \<and> no_space_run s)"

subsection \<open>A concrete collaborator: element trees\<close>

text \<open>
  A parse tree of text nodes and elements (tag, attributes as written in the document,
  children), with the library's operations on it: the descendants of a node in document
  order, selection by tag name, \<^verbatim>\<open>get_text(strip=True)\<close>, which strips every text string
  below the node, drops the ones left empty and joins the rest with the empty separator,
  and attribute lookup. The library keeps the value of an attribute as a string, except
  for the attributes of its table of multi-valued attributes, whose value it keeps as the
  list of the words of the string.
\<close>

datatype html = Text string | Element string "(string \<times> string) list" "html list"

fun descendants :: "html \<Rightarrow> html list" where
  "descendants (Text s) = []"
| "descendants (Element t as cs) = concat (map (\<lambda>c. c # descendants c) cs)"

fun has_tag :: "string \<Rightarrow> html \<Rightarrow> bool" where
  "has_tag t (Text s) = False"
| "has_tag t (Element t' as cs) = (t' = t)"

definition tree_select :: "html \<Rightarrow> string \<Rightarrow> html list" where
  "tree_select n sel = filter (has_tag sel) (descendants n)"

fun strings :: "html \<Rightarrow> string list" where
  "strings (Text s) = [s]"
| "strings (Element t as cs) = concat (map strings cs)"

definition tree_text :: "html \<Rightarrow> string" where
  "tree_text n = concat (filter (\<lambda>s. s \<noteq> []) (map strip (strings n)))"

fun words_from :: "string \<Rightarrow> string \<Rightarrow> string list" where
  "words_from w [] = (if w = [] then [] else [rev w])"
| "words_from w (c # cs) =
     (if isspace c then (if w = [] then words_from [] cs else rev w # words_from [] cs)
      else words_from (c # w) cs)"

definition cdata_list_attribute :: "string \<Rightarrow> string \<Rightarrow> bool" where
  "cdata_list_attribute tag a =
     (a \<in> set [''class'', ''accesskey'', ''dropzone'']
      \<or> (tag \<in> set [''a'', ''link''] \<and> a \<in> set [''rel'', ''rev''])
      \<or> (tag \<in> set [''td'', ''th''] \<and> a = ''headers'')
      \<or> (tag = ''form'' \<and> a = ''accept-charset'')
      \<or> (tag = ''object'' \<and> a = ''archive'')
      \<or> (tag = ''area'' \<and> a = ''rel'')
      \<or> (tag = ''icon'' \<and> a = ''sizes'')
      \<or> (tag = ''iframe'' \<and> a = ''sandbox'')
      \<or> (tag = ''output'' \<and> a = ''for''))"

fun tree_attr :: "html \<Rightarrow> string \<Rightarrow> attr_val option" where
  "tree_attr (Text s) a = None"
| "tree_attr (Element t as cs) a =
     (case map_of as a of
        None \<Rightarrow> None
      | Some v \<Rightarrow> Some (if cdata_list_attribute t a then AttrList (words_from [] v) else AttrStr v))"

text \<open>
  Scheme and authority of a URL of the shape \<open>scheme://authority/...\<close>; the empty string
  for any other.
\<close>

fun after_scheme :: "string \<Rightarrow> string \<Rightarrow> string" where
  "after_scheme acc [] = []"
| "after_scheme acc (c # u) =
     (if c = CHR '':'' then
        (if startswith u ''//''
         then rev acc @ ''://'' @ takeWhile (\<lambda>x. x \<notin> set ''/?#'') (drop 2 u)
         else [])
      else after_scheme (c # acc) u)"

definition tree_base :: "string \<Rightarrow> string" where
  "tree_base u = after_scheme [] u"

text \<open>A site is a table from URLs to pages; a URL outside the table answers 404.\<close>

definition site_env :: "(string \<times> html) list \<Rightarrow> html env" where
  "site_env site =
     \<lparr>http_get = (\<lambda>k url. case map_of site url of None \<Rightarrow> Inl (HTTPError 404) | Some p \<Rightarrow> Inr p),
      css_select = tree_select,
      text_strip = tree_text,
      attr_get = tree_attr,
      url_base = tree_base\<rparr>"

subsection \<open>A fixture: a listing of three pages\<close>

text \<open>
  Three pages of items, each linking to the next by a relative href, the last without a
  link; a configuration with a single-valued and a multi-valued field; the site with all
  three pages, the site where the second page is missing, and an environment in which
  every request is answered with the first page.
\<close>

definition page1 :: html where
  "page1 =
     Element ''html'' []
       [Element ''li'' []
          [Element ''h2'' [] [Text ''First''],
           Element ''span'' [] [Text ''a''], Element ''span'' [] [Text ''b'']],
        Element ''li'' [] [Element ''h2'' [] [Text '' Second '']],
        Element ''a'' [(''href'', ''page2'')] [Text ''next'']]"

definition page2 :: html where
  "page2 =
     Element ''html'' []
       [Element ''li'' [] [Element ''h2'' [] [Text ''Third''], Element ''span'' [] [Text ''c'']],
        Element ''a'' [(''href'', ''page3'')] [Text ''next'']]"

definition page3 :: html where
  "page3 = Element ''html'' [] [Element ''li'' [] [Element ''h2'' [] [Text ''Fourth'']]]"

definition listing_cfg :: "int option \<Rightarrow> config" where
  "listing_cfg m =
     \<lparr>start_url = ''http://example.com/list/page1'',
      item_selector = ''li'',
      fields_map =
        [(''title'', \<lparr>selector = ''h2'', attr = None, multiple = False\<rparr>),
         (''tags'', \<lparr>selector = ''span'', attr = None, multiple = True\<rparr>)],
      pagination = \<lparr>max_pages = m, next_page_selector = Some ''a''\<rparr>,
      delay = 1\<rparr>"

definition full_site :: "(string \<times> html) list" where
  "full_site =
     [(''http://example.com/list/page1'', page1),
      (''http://example.com/list/page2'', page2),
      (''http://example.com/list/page3'', page3)]"

definition broken_site :: "(string \<times> html) list" where
  "broken_site =
     [(''http://example.com/list/page1'', page1),
      (''http://example.com/list/page3'', page3)]"

definition loop_env :: "html env" where
  "loop_env = (site_env [])\<lparr>http_get := (\<lambda>k url. Inr page1)\<rparr>"

text \<open>
  Three items for the field extractor: one whose first link carries no \<open>href\<close>, one
  whose heading has a run of spaces inside its text and a nested element, and one whose
  link carries a \<open>class\<close>.
\<close>

definition class_item :: html where
  "class_item =
     Element ''li'' []
       [Element ''a'' [(''class'', ''btn primary''), (''href'', ''/x'')] [Text ''go'']]"

definition link_item :: html where
  "link_item =
     Element ''li'' []
       [Element ''a'' [] [Text ''plain''],
        Element ''a'' [(''href'', '' /x '')] [Text ''linked'']]"

definition spaced_item :: html where
  "spaced_item =
     Element ''li'' []
       [Element ''h2'' [] [Text '' First   item ''],
        Element ''p'' [] [Text ''Hello '', Element ''b'' [] [Text ''world'']]]"

definition text_rule :: "string \<Rightarrow> bool \<Rightarrow> field_rule" where
  "text_rule sel m = \<lparr>selector = sel, attr = None, multiple = m\<rparr>"

definition attr_rule :: "string \<Rightarrow> string \<Rightarrow> bool \<Rightarrow> field_rule" where
  "attr_rule sel a m = \<lparr>selector = sel, attr = Some a, multiple = m\<rparr>"

text \<open>
  A site of one page whose only item is the one with the \<open>class\<close>, and a configuration
  with one field, read from that attribute.
\<close>

definition class_site :: "(string \<times> html) list" where
  "class_site = [(''http://example.com/c'', Element ''html'' [] [class_item])]"

definition class_cfg :: config where
  "class_cfg =
     \<lparr>start_url = ''http://example.com/c'',
      item_selector = ''li'',
      fields_map = [(''kind'', attr_rule ''a'' ''class'' False)],
      pagination = \<lparr>max_pages = None, next_page_selector = None\<rparr>,
      delay = 1\<rparr>"

text \<open>A result set of one record with a list-valued field, and an empty site.\<close>

definition tag_rows :: "row list" where
  "tag_rows = [[(''title'', Str ''First''), (''tags'', StrList [''a'', ''b''])]]"


section \<open>Properties\<close>

subsection \<open>Strings\<close>

lemma startswith_prefix: "startswith s p = prefix p s"
  by (induction s p rule: startswith.induct) auto

lemma endswith_suffix: "endswith s p = suffix p s"
  by (simp add: endswith_def startswith_prefix suffix_to_prefix)

lemma suffix_slash: "suffix ''/'' s = (s \<noteq> [] \<and> last s = CHR ''/'')"
  by (cases s rule: rev_cases) (auto simp: suffix_def)

lemma suffix_slash_mem: "suffix ''/'' s \<Longrightarrow> CHR ''/'' \<in> set s"
  by (auto simp: suffix_def)

lemma rstrip_char_append:
  "\<not> suffix [c] r \<Longrightarrow> rstrip_char c (r @ replicate n c) = r"
proof -
  assume a: "\<not> suffix [c] r"
  have "dropWhile (\<lambda>x. x = c) (replicate n c @ rev r) = dropWhile (\<lambda>x. x = c) (rev r)"
    by (induction n) auto
  moreover have "dropWhile (\<lambda>x. x = c) (rev r) = rev r"
    using a by (cases r rule: rev_cases) (auto simp: suffix_def)
  ultimately show ?thesis by (simp add: rstrip_char_def)
qed

lemma rsplit1_last:
  "c \<notin> set suf \<Longrightarrow> rsplit1 c (pre @ c # suf) = [pre, suf]"
proof -
  assume a: "c \<notin> set suf"
  have d: "dropWhile (\<lambda>x. x \<noteq> c) (rev suf @ c # rev pre) = c # rev pre"
    using a by (auto simp: dropWhile_append3)
  have t: "takeWhile (\<lambda>x. x \<noteq> c) (rev suf @ c # rev pre) = rev suf"
    using a by (auto simp: takeWhile_tail)
  show ?thesis using d t by (simp add: rsplit1_def)
qed

lemma rsplit1_none: "c \<notin> set s \<Longrightarrow> rsplit1 c s = [s]"
  by (simp add: rsplit1_def)

lemma upto_last_slash_split:
  "CHR ''/'' \<notin> set suf \<Longrightarrow> upto_last_slash (pre @ ''/'' @ suf) = pre @ ''/''"
  by (auto simp: upto_last_slash_def dropWhile_append3)

subsection \<open>Next-URL resolution\<close>

lemma resolve_next_has_slash: "CHR ''/'' \<in> set (resolve_next e cur h)"
proof -
  have p: "prefix p h \<Longrightarrow> CHR ''/'' \<in> set p \<Longrightarrow> CHR ''/'' \<in> set h" for p
    by (auto simp: prefix_def)
  have 1: "prefix ''http://'' h \<Longrightarrow> CHR ''/'' \<in> set h" using p[of "''http://''"] by simp
  have 2: "prefix ''https://'' h \<Longrightarrow> CHR ''/'' \<in> set h" using p[of "''https://''"] by simp
  have 3: "prefix ''/'' h \<Longrightarrow> CHR ''/'' \<in> set h" using p[of "''/''"] by simp
  show ?thesis
    using 1 2 3 suffix_slash_mem[of cur]
    by (auto simp: resolve_next_def startswith_prefix endswith_suffix)
qed

text \<open>
  C1. The current URL is always one that has just been fetched: the start URL, which the
  HTTP client serves only with an \<open>http://\<close> or \<open>https://\<close> scheme, or a resolved URL, and
  every resolved URL contains a slash. For every href \<open>h\<close> and such a current URL \<open>cur\<close>
  the next URL follows the four branches in order: (1) an \<open>h\<close> that starts with \<open>http://\<close>
  or \<open>https://\<close> is taken verbatim; (2) otherwise, when \<open>cur\<close> ends with a slash and \<open>h\<close>
  starts with one, it is \<open>cur\<close> without all its trailing slashes, followed by \<open>h\<close>;
  (3) otherwise, when \<open>h\<close> starts with a slash, it is scheme and authority of \<open>cur\<close>
  followed by \<open>h\<close>; (4) otherwise it is \<open>cur\<close> followed by \<open>h\<close> when \<open>cur\<close> ends with a
  slash, and everything in \<open>cur\<close> up to and including its last slash, followed by \<open>h\<close>,
  when it does not.
\<close>

theorem resolve_next_branches:
  "(prefix ''http://'' h \<or> prefix ''https://'' h \<longrightarrow> resolve_next e cur h = h) \<and>
   (\<not> prefix ''http://'' h \<and> \<not> prefix ''https://'' h \<and> prefix ''/'' h \<and> 0 < n \<and>
      cur = r @ replicate n CHR ''/'' \<and> \<not> suffix ''/'' r \<longrightarrow> resolve_next e cur h = r @ h) \<and>
   (\<not> prefix ''http://'' h \<and> \<not> prefix ''https://'' h \<and> prefix ''/'' h \<and> \<not> suffix ''/'' cur
      \<longrightarrow> resolve_next e cur h = url_base e cur @ h) \<and>
   (relative_href h \<and> suffix ''/'' cur \<longrightarrow> resolve_next e cur h = cur @ h) \<and>
   (relative_href h \<and> \<not> suffix ''/'' cur \<and> CHR ''/'' \<in> set cur
      \<longrightarrow> resolve_next e cur h = upto_last_slash cur @ h) \<and>
   (cur = pre @ ''/'' @ suf \<and> CHR ''/'' \<notin> set suf \<longrightarrow> upto_last_slash cur = pre @ ''/'') \<and>
   CHR ''/'' \<in> set (resolve_next e cur h)"
proof (intro conjI)
  show "prefix ''http://'' h \<or> prefix ''https://'' h \<longrightarrow> resolve_next e cur h = h"
    by (auto simp: resolve_next_def startswith_prefix)
next
  show "\<not> prefix ''http://'' h \<and> \<not> prefix ''https://'' h \<and> prefix ''/'' h \<and> 0 < n \<and>
      cur = r @ replicate n CHR ''/'' \<and> \<not> suffix ''/'' r \<longrightarrow> resolve_next e cur h = r @ h"
  proof
    assume a: "\<not> prefix ''http://'' h \<and> \<not> prefix ''https://'' h \<and> prefix ''/'' h \<and> 0 < n \<and>
      cur = r @ replicate n CHR ''/'' \<and> \<not> suffix ''/'' r"
    then have "suffix ''/'' cur"
      by (cases n) (auto simp: suffix_slash replicate_append_same[symmetric]
          simp del: replicate_append_same)
    moreover have "rstrip_char CHR ''/'' cur = r"
      using a rstrip_char_append[of "CHR ''/''" r n] by simp
    ultimately show "resolve_next e cur h = r @ h"
      using a by (simp add: resolve_next_def startswith_prefix endswith_suffix)
  qed
next
  show "\<not> prefix ''http://'' h \<and> \<not> prefix ''https://'' h \<and> prefix ''/'' h \<and> \<not> suffix ''/'' cur
      \<longrightarrow> resolve_next e cur h = url_base e cur @ h"
    by (simp add: resolve_next_def startswith_prefix endswith_suffix)
next
  show "relative_href h \<and> suffix ''/'' cur \<longrightarrow> resolve_next e cur h = cur @ h"
    by (simp add: resolve_next_def startswith_prefix endswith_suffix relative_href_def)
next
  show "relative_href h \<and> \<not> suffix ''/'' cur \<and> CHR ''/'' \<in> set cur
      \<longrightarrow> resolve_next e cur h = upto_last_slash cur @ h"
  proof
    assume a: "relative_href h \<and> \<not> suffix ''/'' cur \<and> CHR ''/'' \<in> set cur"
    from a have rel: "relative_href h" by blast
    from a have ns: "\<not> suffix ''/'' cur" by blast
    from a have "CHR ''/'' \<in> set cur" by blast
    then obtain pre' suf' where cu: "cur = pre' @ CHR ''/'' # suf'" and su: "CHR ''/'' \<notin> set suf'"
      by (meson split_list_last)
    have sp: "rsplit1 CHR ''/'' cur = [pre', suf']"
      using rsplit1_last[OF su, of pre'] cu by simp
    have up: "upto_last_slash cur = pre' @ ''/''"
      using upto_last_slash_split[OF su, of pre'] cu by simp
    show "resolve_next e cur h = upto_last_slash cur @ h"
      using rel ns
      by (simp add: resolve_next_def startswith_prefix endswith_suffix relative_href_def sp up)
  qed
next
  show "cur = pre @ ''/'' @ suf \<and> CHR ''/'' \<notin> set suf \<longrightarrow> upto_last_slash cur = pre @ ''/''"
    using upto_last_slash_split[of suf pre] by blast
next
  show "CHR ''/'' \<in> set (resolve_next e cur h)" by (rule resolve_next_has_slash)
qed

theorem resolve_next_branches_witness:
  "resolve_next (site_env []) ''http://a.io/x'' ''https://b.io/y'' = ''https://b.io/y'' \<and>
   resolve_next (site_env []) ''http://a.io/x//'' ''/y'' = ''http://a.io/x/y'' \<and>
   resolve_next (site_env []) ''http://a.io/x'' ''/y'' = ''http://a.io/y'' \<and>
   resolve_next (site_env []) ''http://a.io/x/'' ''y'' = ''http://a.io/x/y'' \<and>
   resolve_next (site_env []) ''http://a.io/x/z'' ''y'' = ''http://a.io/x/y''"
proof -
  let ?e = "site_env []"
  have 1: "resolve_next ?e ''http://a.io/x'' ''https://b.io/y'' = ''https://b.io/y''"
    using resolve_next_branches[of "''https://b.io/y''" ?e "''http://a.io/x''"] by simp
  have 2: "resolve_next ?e ''http://a.io/x//'' ''/y'' = ''http://a.io/x/y''"
    using resolve_next_branches[of "''/y''" ?e "''http://a.io/x//''" 2 "''http://a.io/x''"]
    by (simp add: suffix_slash numeral_2_eq_2)
  have 3: "resolve_next ?e ''http://a.io/x'' ''/y'' = ''http://a.io/y''"
    using resolve_next_branches[of "''/y''" ?e "''http://a.io/x''"]
    by (simp add: suffix_slash site_env_def tree_base_def)
  have 4: "resolve_next ?e ''http://a.io/x/'' ''y'' = ''http://a.io/x/y''"
    using resolve_next_branches[of "''y''" ?e "''http://a.io/x/''"]
    by (simp add: suffix_slash relative_href_def)
  note inst = resolve_next_branches[of "''y''" ?e "''http://a.io/x/z''" _ _ "''http://a.io/x''" "''z''"]
  have u: "upto_last_slash ''http://a.io/x/z'' = ''http://a.io/x/''"
    using inst by simp
  have 5: "resolve_next ?e ''http://a.io/x/z'' ''y'' = ''http://a.io/x/y''"
    using inst u by (simp add: suffix_slash relative_href_def)
  show ?thesis using 1 2 3 4 5 by simp
qed

text \<open>
  C9. For a current URL without a path, \<open>scheme://host\<close> with no further slash, and a
  relative href \<open>h\<close>, the next URL is \<open>scheme://h\<close>: the host is dropped, because the
  fourth branch cuts the current URL at its last slash, which is the second slash after
  the scheme.
\<close>

theorem resolve_next_bare_host:
  "CHR ''/'' \<notin> set scheme \<Longrightarrow> CHR ''/'' \<notin> set host \<Longrightarrow> relative_href h \<Longrightarrow>
   resolve_next e (scheme @ ''://'' @ host) h = scheme @ ''://'' @ h \<and>
   resolve_next e (scheme @ ''://'' @ host) h
     = hd (rsplit1 CHR ''/'' (scheme @ ''://'' @ host)) @ ''/'' @ h"
proof -
  assume s: "CHR ''/'' \<notin> set scheme" and t: "CHR ''/'' \<notin> set host" and r: "relative_href h"
  let ?cur = "scheme @ ''://'' @ host"
  have sp: "rsplit1 CHR ''/'' ?cur = [scheme @ '':/'', host]"
    using rsplit1_last[OF t, of "scheme @ '':/''"] by simp
  have res: "resolve_next e ?cur h = scheme @ ''://'' @ h"
  proof (cases "host = []")
    case True
    then show ?thesis using r
      by (simp add: resolve_next_def startswith_prefix endswith_suffix relative_href_def
          suffix_slash)
  next
    case False
    then have "last host \<noteq> CHR ''/''" using t by (metis last_in_set)
    then have "\<not> suffix ''/'' ?cur" using False by (simp add: suffix_slash)
    then show ?thesis using r sp
      by (simp add: resolve_next_def startswith_prefix endswith_suffix relative_href_def)
  qed
  show ?thesis using res sp by simp
qed

theorem resolve_next_bare_host_witness:
  "resolve_next (site_env []) ''http://example.com'' ''page2'' = ''http://page2''"
  using resolve_next_bare_host[of "''http''" "''example.com''" "''page2''" "site_env []"]
  by (simp add: relative_href_def)

subsection \<open>The loop\<close>

lemma collect_Inr: "collect f xs = Inr ys \<Longrightarrow> map f xs = map Inr ys"
  by (induction xs arbitrary: ys) (auto split: sum.splits)

lemma collect_all_Inr: "map f xs = map Inr ys \<Longrightarrow> collect f xs = Inr ys"
  by (induction xs arbitrary: ys) auto

lemma fetch_calls_append: "fetch_calls (xs @ ys) = fetch_calls xs @ fetch_calls ys"
  by (induction xs rule: fetch_calls.induct) auto

lemma run_prepend_prepend:
  "run_prepend rs ms (run_prepend rs' ms' r) = run_prepend (rs @ rs') (ms @ ms') r"
  by (cases r) auto

lemma run_prepend_Nil: "run_prepend [] [] r = r"
  by (cases r) auto

lemma page_step_rows:
  "page_step e c idx cur soup = Inr (rows, nxt) \<Longrightarrow>
   page_rows e c soup = map Inr rows \<and> advance e c idx cur soup = Inr nxt"
  by (auto simp: page_step_def page_rows_def dest: collect_Inr split: sum.splits)

text \<open>The ways through one iteration.\<close>

lemma iteration_cases:
  obtains (empty) "cur = []"
  | (fail) x where "cur \<noteq> []" "http_get e idx cur = Inl x"
  | (raise) soup x where "cur \<noteq> []" "http_get e idx cur = Inr soup"
      "page_step e c idx cur soup = Inl x"
  | (stop) soup rows where "cur \<noteq> []" "http_get e idx cur = Inr soup"
      "page_step e c idx cur soup = Inr (rows, None)"
  | (continue) soup rows nxt where "cur \<noteq> []" "http_get e idx cur = Inr soup"
      "page_step e c idx cur soup = Inr (rows, Some nxt)"
proof (cases "cur = []")
  case True
  then show ?thesis by (rule empty)
next
  case ne: False
  show ?thesis
  proof (cases "http_get e idx cur")
    case (Inl x)
    with ne show ?thesis by (rule fail)
  next
    case get: (Inr soup)
    show ?thesis
    proof (cases "page_step e c idx cur soup")
      case (Inl x)
      with ne get show ?thesis by (rule raise)
    next
      case (Inr p)
      obtain rows nxt where p: "p = (rows, nxt)" by (cases p)
      show ?thesis
      proof (cases nxt)
        case None
        with ne get Inr p show ?thesis by (auto intro: stop)
      next
        case (Some u)
        with ne get Inr p show ?thesis by (auto intro: continue)
      qed
    qed
  qed
qed

lemma scrape_loop_empty [simp]: "scrape_loop fuel e c [] idx res out = Returned res out"
  by (cases fuel) auto

lemma scrape_loop_fail:
  "cur \<noteq> [] \<Longrightarrow> http_get e idx cur = Inl x \<Longrightarrow>
   scrape_loop (Suc fuel) e c cur idx res out
     = Returned res (out @ [InfoFetching idx cur, ErrorFetch cur x])"
  by (simp add: fetch_page_def Let_def)

lemma scrape_loop_raise:
  "cur \<noteq> [] \<Longrightarrow> http_get e idx cur = Inr soup \<Longrightarrow> page_step e c idx cur soup = Inl x \<Longrightarrow>
   scrape_loop (Suc fuel) e c cur idx res out
     = Raised x
         (out @ [InfoFetching idx cur, InfoFound (length (css_select e soup (item_selector c))) idx])"
  by (auto simp: fetch_page_def page_step_def Let_def split: sum.splits)

lemma scrape_loop_stop:
  "cur \<noteq> [] \<Longrightarrow> http_get e idx cur = Inr soup \<Longrightarrow>
   page_step e c idx cur soup = Inr (rows, None) \<Longrightarrow>
   scrape_loop (Suc fuel) e c cur idx res out
     = Returned (res @ rows)
         (out @ [InfoFetching idx cur, InfoFound (length (css_select e soup (item_selector c))) idx])"
  by (auto simp: fetch_page_def page_step_def Let_def split: sum.splits)

lemma scrape_loop_step:
  "cur \<noteq> [] \<Longrightarrow> http_get e idx cur = Inr soup \<Longrightarrow>
   page_step e c idx cur soup = Inr (rows, Some nxt) \<Longrightarrow>
   scrape_loop (Suc fuel) e c cur idx res out
     = scrape_loop fuel e c nxt (Suc idx) (res @ rows)
         (out @ [InfoFetching idx cur, InfoFound (length (css_select e soup (item_selector c))) idx])"
  by (auto simp: fetch_page_def page_step_def Let_def split: sum.splits)

declare scrape_loop.simps(2) [simp del]

lemma scrape_loop_acc:
  "scrape_loop fuel e c cur idx res out = run_prepend res out (scrape_loop fuel e c cur idx [] [])"
proof (induction fuel arbitrary: cur idx res out)
  case 0
  show ?case by simp
next
  case (Suc fuel)
  show ?case
  proof (cases rule: iteration_cases[where cur = cur and e = e and idx = idx and c = c])
    case empty
    then show ?thesis by simp
  next
    case (fail x)
    then show ?thesis by (simp add: scrape_loop_fail)
  next
    case (raise soup x)
    then show ?thesis by (simp add: scrape_loop_raise)
  next
    case (stop soup rows)
    then show ?thesis by (simp add: scrape_loop_stop)
  next
    case (continue soup rows nxt)
    let ?ms = "[InfoFetching idx cur, InfoFound (length (css_select e soup (item_selector c))) idx]"
    have "scrape_loop (Suc fuel) e c cur idx res out
            = scrape_loop fuel e c nxt (Suc idx) (res @ rows) (out @ ?ms)"
      using continue by (rule scrape_loop_step)
    also have "\<dots> = run_prepend (res @ rows) (out @ ?ms) (scrape_loop fuel e c nxt (Suc idx) [] [])"
      by (rule Suc.IH)
    also have "\<dots> = run_prepend res out (run_prepend rows ?ms (scrape_loop fuel e c nxt (Suc idx) [] []))"
      by (simp add: run_prepend_prepend)
    also have "run_prepend rows ?ms (scrape_loop fuel e c nxt (Suc idx) [] [])
                 = scrape_loop fuel e c nxt (Suc idx) rows ?ms"
      by (rule Suc.IH[symmetric])
    also have "scrape_loop fuel e c nxt (Suc idx) rows ?ms = scrape_loop (Suc fuel) e c cur idx [] []"
      using scrape_loop_step[OF continue, of fuel "[]" "[]"] by simp
    finally show ?thesis .
  qed
qed

lemma scrape_loop_next:
  "cur \<noteq> [] \<Longrightarrow> http_get e idx cur = Inr soup \<Longrightarrow>
   page_step e c idx cur soup = Inr (rows, Some nxt) \<Longrightarrow>
   scrape_loop (Suc fuel) e c cur idx res out
     = run_prepend (res @ rows)
         (out @ [InfoFetching idx cur, InfoFound (length (css_select e soup (item_selector c))) idx])
         (scrape_loop fuel e c nxt (Suc idx) [] [])"
  using scrape_loop_acc[of fuel e c nxt "Suc idx" "res @ rows"]
  by (simp add: scrape_loop_step)


lemma run_rows_prepend: "\<not> raised_run r \<Longrightarrow> run_rows (run_prepend rs ms r) = rs @ run_rows r"
  by (cases r) auto

lemma run_out_prepend: "run_out (run_prepend rs ms r) = ms @ run_out r"
  by (cases r) auto

lemma raised_run_prepend: "raised_run (run_prepend rs ms r) = raised_run r"
  by (cases r) auto

lemma fetched_pages_Nil: "fetched_pages e [] = []"
  by (simp add: fetched_pages_def)

lemma fetched_pages_ok:
  "http_get e k u = Inr soup \<Longrightarrow>
   fetched_pages e (InfoFetching k u # InfoFound a b # ms) = soup # fetched_pages e ms"
  by (simp add: fetched_pages_def)

lemma fetched_pages_fail:
  "http_get e k u = Inl x \<Longrightarrow> fetched_pages e [InfoFetching k u, ErrorFetch u x] = []"
  by (simp add: fetched_pages_def)

lemma fetched_pages_append:
  "fetched_pages e (xs @ ys) = fetched_pages e xs @ fetched_pages e ys"
  by (simp add: fetched_pages_def fetch_calls_append)

lemma fetch_count_append: "fetch_count (xs @ ys) = fetch_count xs + fetch_count ys"
  by (simp add: fetch_count_def fetch_calls_append)

text \<open>
  The rows of a run that has not raised are the rows built from the items of its pages, in
  the order of the requests.
\<close>

lemma scrape_loop_rows:
  "\<not> raised_run (scrape_loop fuel e c cur idx [] []) \<Longrightarrow>
   map Inr (run_rows (scrape_loop fuel e c cur idx [] []))
     = concat (map (page_rows e c) (fetched_pages e (run_out (scrape_loop fuel e c cur idx [] []))))"
proof (induction fuel arbitrary: cur idx)
  case 0
  show ?case by (simp add: fetched_pages_Nil)
next
  case (Suc fuel)
  show ?case
  proof (cases rule: iteration_cases[where cur = cur and e = e and idx = idx and c = c])
    case empty
    then show ?thesis by (simp add: fetched_pages_Nil)
  next
    case (fail x)
    then show ?thesis by (simp add: scrape_loop_fail fetched_pages_fail)
  next
    case (raise soup x)
    then show ?thesis using Suc.prems by (simp add: scrape_loop_raise)
  next
    case (stop soup rows)
    then show ?thesis
      using page_step_rows[OF stop(3)]
      by (simp add: scrape_loop_stop fetched_pages_ok fetched_pages_Nil)
  next
    case (continue soup rows nxt)
    let ?run = "scrape_loop fuel e c nxt (Suc idx) [] []"
    have nr: "\<not> raised_run ?run"
      using Suc.prems continue by (simp add: scrape_loop_next raised_run_prepend)
    show ?thesis
      using continue Suc.IH[OF nr] page_step_rows[OF continue(3)] nr
      by (simp add: scrape_loop_next run_rows_prepend run_out_prepend fetched_pages_ok)
  qed
qed

lemma upt_shift: "[i ..< i + Suc n] = i # [Suc i ..< Suc i + n]"
  by (simp add: upt_rec)

lemma scrape_loop_numbering:
  "map fst (fetch_calls (run_out (scrape_loop fuel e c cur idx [] [])))
     = [idx ..< idx + fetch_count (run_out (scrape_loop fuel e c cur idx [] []))]"
proof (induction fuel arbitrary: cur idx)
  case 0
  show ?case by (simp add: fetch_count_def)
next
  case (Suc fuel)
  show ?case
  proof (cases rule: iteration_cases[where cur = cur and e = e and idx = idx and c = c])
    case empty
    then show ?thesis by (simp add: fetch_count_def)
  next
    case (fail x)
    then show ?thesis by (simp add: scrape_loop_fail fetch_count_def)
  next
    case (raise soup x)
    then show ?thesis by (simp add: scrape_loop_raise fetch_count_def)
  next
    case (stop soup rows)
    then show ?thesis by (simp add: scrape_loop_stop fetch_count_def)
  next
    case (continue soup rows nxt)
    let ?run = "scrape_loop fuel e c nxt (Suc idx) [] []"
    have "fetch_calls (run_out (scrape_loop (Suc fuel) e c cur idx [] []))
            = (idx, cur) # fetch_calls (run_out ?run)"
      using continue by (simp add: scrape_loop_next run_out_prepend)
    moreover have "fetch_count (run_out (scrape_loop (Suc fuel) e c cur idx [] []))
            = Suc (fetch_count (run_out ?run))"
      using continue by (simp add: scrape_loop_next run_out_prepend fetch_count_def)
    ultimately show ?thesis using Suc.IH[of nxt "Suc idx"]
      using upt_shift[of idx "fetch_count (run_out ?run)"] by simp
  qed
qed


subsection \<open>The page limit\<close>

lemma resolve_next_nonempty: "h \<noteq> [] \<Longrightarrow> resolve_next e cur h \<noteq> []"
  by (simp add: resolve_next_def)

lemma advance_at_max:
  "max_pages_of (pagination c) = Some N \<Longrightarrow> N \<le> int idx \<Longrightarrow> advance e c idx cur soup = Inr None"
  by (simp add: advance_def)

lemma advance_linked:
  assumes "valid_next_link e c soup"
    and "\<not> (case max_pages_of (pagination c) of None \<Rightarrow> False | Some m \<Rightarrow> m \<le> int idx)"
  shows "\<exists>nxt. advance e c idx cur soup = Inr (Some nxt) \<and> nxt \<noteq> []"
  using assms
  by (auto simp: advance_def valid_next_link_def truthy_def resolve_next_nonempty
      split: option.splits attr_val.splits)

lemma page_step_at_max:
  "max_pages_of (pagination c) = Some N \<Longrightarrow> N \<le> int idx \<Longrightarrow>
   page_step e c idx cur soup \<noteq> Inr (rows, Some nxt)"
  using advance_at_max[of c N idx e cur soup]
  by (auto simp: page_step_def split: sum.splits)

lemma page_step_linked:
  assumes "valid_next_link e c soup"
    and "\<not> (case max_pages_of (pagination c) of None \<Rightarrow> False | Some m \<Rightarrow> m \<le> int idx)"
  shows "page_step e c idx cur soup \<noteq> Inr (rows, None)"
    and "page_step e c idx cur soup = Inr (rows, Some nxt) \<Longrightarrow> nxt \<noteq> []"
  using advance_linked[OF assms, of cur]
  by (auto simp: page_step_def split: sum.splits)

lemma scrape_loop_bound:
  "max_pages_of (pagination c) = Some N \<Longrightarrow> int idx \<le> N \<Longrightarrow>
   fetch_count (run_out (scrape_loop fuel e c cur idx [] [])) + idx \<le> nat N + 1"
proof (induction fuel arbitrary: cur idx)
  case 0
  then show ?case by (simp add: fetch_count_def)
next
  case (Suc fuel)
  show ?case
  proof (cases rule: iteration_cases[where cur = cur and e = e and idx = idx and c = c])
    case empty
    then show ?thesis using Suc.prems by (simp add: fetch_count_def)
  next
    case (fail x)
    then show ?thesis using Suc.prems by (simp add: scrape_loop_fail fetch_count_def)
  next
    case (raise soup x)
    then show ?thesis using Suc.prems by (simp add: scrape_loop_raise fetch_count_def)
  next
    case (stop soup rows)
    then show ?thesis using Suc.prems by (simp add: scrape_loop_stop fetch_count_def)
  next
    case (continue soup rows nxt)
    then have "\<not> N \<le> int idx"
      using page_step_at_max[OF Suc.prems(1), of idx e cur soup rows nxt] by auto
    then have "int (Suc idx) \<le> N" by simp
    from Suc.IH[OF Suc.prems(1) this, of nxt] show ?thesis
      using continue by (simp add: scrape_loop_next run_out_prepend fetch_count_def)
  qed
qed

lemma scrape_loop_terminates:
  "max_pages_of (pagination c) = Some N \<Longrightarrow> int idx \<le> N \<Longrightarrow> nat N + 1 \<le> fuel + idx \<Longrightarrow>
   scrape_loop fuel e c cur idx [] [] \<noteq> Pending u k r ms"
proof (induction fuel arbitrary: cur idx r ms)
  case 0
  then show ?case by simp
next
  case (Suc fuel)
  show ?case
  proof (cases rule: iteration_cases[where cur = cur and e = e and idx = idx and c = c])
    case empty
    then show ?thesis by simp
  next
    case (fail x)
    then show ?thesis by (simp add: scrape_loop_fail)
  next
    case (raise soup x)
    then show ?thesis by (simp add: scrape_loop_raise)
  next
    case (stop soup rows)
    then show ?thesis by (simp add: scrape_loop_stop)
  next
    case (continue soup rows nxt)
    then have "\<not> N \<le> int idx"
      using page_step_at_max[OF Suc.prems(1), of idx e cur soup rows nxt] by auto
    then have le: "int (Suc idx) \<le> N" by simp
    have "nat N + 1 \<le> fuel + Suc idx" using Suc.prems(3) by simp
    from Suc.IH[OF Suc.prems(1) le this, of nxt]
    have "\<And>r ms. scrape_loop fuel e c nxt (Suc idx) [] [] \<noteq> Pending u k r ms" by blast
    then show ?thesis using continue
      by (cases "scrape_loop fuel e c nxt (Suc idx) [] []") (auto simp: scrape_loop_next)
  qed
qed

lemma scrape_loop_exact:
  "max_pages_of (pagination c) = Some N \<Longrightarrow> int idx \<le> N \<Longrightarrow> cur \<noteq> [] \<Longrightarrow>
   scrape_loop fuel e c cur idx [] [] = Returned r ms \<Longrightarrow>
   \<forall>call \<in> set (fetch_calls ms). answers_with_link e c call \<Longrightarrow>
   fetch_count ms + idx = nat N + 1"
proof (induction fuel arbitrary: cur idx r ms)
  case 0
  then show ?case by simp
next
  case (Suc fuel)
  show ?case
  proof (cases rule: iteration_cases[where cur = cur and e = e and idx = idx and c = c])
    case empty
    then show ?thesis using Suc.prems by simp
  next
    case (fail x)
    then have "ms = [InfoFetching idx cur, ErrorFetch cur x]"
      using Suc.prems(4) by (simp add: scrape_loop_fail)
    then have "answers_with_link e c (idx, cur)" using Suc.prems(5) by simp
    then show ?thesis using fail by (simp add: answers_with_link_def)
  next
    case (raise soup x)
    then show ?thesis using Suc.prems(4) by (simp add: scrape_loop_raise)
  next
    case (stop soup rows)
    let ?ms = "[InfoFetching idx cur, InfoFound (length (css_select e soup (item_selector c))) idx]"
    have ms: "ms = ?ms" using stop Suc.prems(4) by (simp add: scrape_loop_stop)
    then have "answers_with_link e c (idx, cur)" using Suc.prems(5) by simp
    then have link: "valid_next_link e c soup" using stop(2) by (simp add: answers_with_link_def)
    have "N \<le> int idx"
    proof (rule ccontr)
      assume "\<not> N \<le> int idx"
      then have "\<not> (case max_pages_of (pagination c) of None \<Rightarrow> False | Some m \<Rightarrow> m \<le> int idx)"
        using Suc.prems(1) by simp
      from page_step_linked(1)[OF link this] show False using stop(3) by blast
    qed
    then show ?thesis using Suc.prems(2) by (simp add: ms fetch_count_def)
  next
    case (continue soup rows nxt)
    let ?ms = "[InfoFetching idx cur, InfoFound (length (css_select e soup (item_selector c))) idx]"
    have eq: "run_prepend rows ?ms (scrape_loop fuel e c nxt (Suc idx) [] []) = Returned r ms"
      using continue Suc.prems(4) by (simp add: scrape_loop_next)
    then obtain r' ms' where ret: "scrape_loop fuel e c nxt (Suc idx) [] [] = Returned r' ms'"
      and ms: "ms = ?ms @ ms'"
      by (cases "scrape_loop fuel e c nxt (Suc idx) [] []") auto
    have "answers_with_link e c (idx, cur)" using Suc.prems(5) by (simp add: ms)
    then have link: "valid_next_link e c soup"
      using continue(2) by (simp add: answers_with_link_def)
    have nmax: "\<not> N \<le> int idx"
      using page_step_at_max[OF Suc.prems(1), of idx e cur soup rows nxt] continue(3) by auto
    then have "\<not> (case max_pages_of (pagination c) of None \<Rightarrow> False | Some m \<Rightarrow> m \<le> int idx)"
      using Suc.prems(1) by simp
    from page_step_linked(2)[OF link this continue(3)] have nn: "nxt \<noteq> []" .
    have all': "\<forall>call \<in> set (fetch_calls ms'). answers_with_link e c call"
      using Suc.prems(5) by (simp add: ms)
    have le: "int (Suc idx) \<le> N" using nmax by simp
    from Suc.IH[OF Suc.prems(1) le nn ret all'] show ?thesis
      by (simp add: ms fetch_count_def)
  qed
qed

lemma scrape_loop_diverges:
  "max_pages_of (pagination c) = None \<Longrightarrow> cur \<noteq> [] \<Longrightarrow>
   \<forall>k u. answers_with_link e c (k, u) \<Longrightarrow>
   scrape_loop fuel e c cur idx [] [] \<noteq> Returned r ms"
proof (induction fuel arbitrary: cur idx r ms)
  case 0
  then show ?case by simp
next
  case (Suc fuel)
  from Suc.prems(3) have "answers_with_link e c (idx, cur)" by blast
  then obtain soup where get: "http_get e idx cur = Inr soup" and link: "valid_next_link e c soup"
    by (auto simp: answers_with_link_def split: sum.splits)
  have nm: "\<not> (case max_pages_of (pagination c) of None \<Rightarrow> False | Some m \<Rightarrow> m \<le> int idx)"
    using Suc.prems(1) by simp
  show ?case
  proof (cases rule: iteration_cases[where cur = cur and e = e and idx = idx and c = c])
    case empty
    then show ?thesis using Suc.prems(2) by simp
  next
    case (fail x)
    then show ?thesis using get by simp
  next
    case (raise soup' x)
    then show ?thesis by (simp add: scrape_loop_raise)
  next
    case (stop soup' rows)
    then show ?thesis using get page_step_linked(1)[OF link nm, of cur rows] by simp
  next
    case (continue soup' rows nxt)
    then have nn: "nxt \<noteq> []" using get page_step_linked(2)[OF link nm, of cur rows nxt] by simp
    from Suc.IH[OF Suc.prems(1) nn Suc.prems(3), of "Suc idx"]
    have "\<And>r ms. scrape_loop fuel e c nxt (Suc idx) [] [] \<noteq> Returned r ms" by blast
    then show ?thesis using continue
      by (cases "scrape_loop fuel e c nxt (Suc idx) [] []") (auto simp: scrape_loop_next)
  qed
qed

text \<open>When no page raises, no run does.\<close>

lemma scrape_loop_no_raise:
  "\<forall>idx cur soup x. page_step e c idx cur soup \<noteq> Inl x \<Longrightarrow>
   \<not> raised_run (scrape_loop fuel e c cur idx [] [])"
proof (induction fuel arbitrary: cur idx)
  case 0
  show ?case by simp
next
  case (Suc fuel)
  show ?case
  proof (cases rule: iteration_cases[where cur = cur and e = e and idx = idx and c = c])
    case empty
    then show ?thesis by simp
  next
    case (fail x)
    then show ?thesis by (simp add: scrape_loop_fail)
  next
    case (raise soup x)
    then show ?thesis using Suc.prems by blast
  next
    case (stop soup rows)
    then show ?thesis by (simp add: scrape_loop_stop)
  next
    case (continue soup rows nxt)
    then show ?thesis using Suc.IH[OF Suc.prems, of nxt "Suc idx"]
      by (simp add: scrape_loop_next raised_run_prepend)
  qed
qed

text \<open>Rules that read the text of a node never raise.\<close>

lemma collect_total: "\<forall>x \<in> set xs. \<exists>y. f x = Inr y \<Longrightarrow> \<exists>ys. collect f xs = Inr ys"
  by (induction xs) auto

lemma extract_field_text_only: "\<not> truthy (attr r) \<Longrightarrow> \<exists>v. extract_field e item r = Inr v"
  by (auto simp: extract_field_def truthy_def Let_def split: option.splits)

lemma build_fields_text_only:
  "\<forall>(name, r) \<in> set fs. \<not> truthy (attr r) \<Longrightarrow> \<exists>row. build_fields e item acc fs = Inr row"
proof (induction fs arbitrary: acc)
  case Nil
  show ?case by simp
next
  case (Cons p fs)
  obtain name r where p: "p = (name, r)" by (cases p)
  from Cons.prems have "\<not> truthy (attr r)" by (simp add: p)
  from extract_field_text_only[OF this, of e item]
  obtain v where v: "extract_field e item r = Inr v" by blast
  from Cons.prems have "\<forall>(name, r) \<in> set fs. \<not> truthy (attr r)" by simp
  from Cons.IH[OF this] show ?case by (simp add: p v)
qed

lemma page_step_text_only:
  assumes "\<forall>(name, r) \<in> set (fields_map c). \<not> truthy (attr r)"
    and "\<forall>n vs. attr_get e n ''href'' \<noteq> Some (AttrList vs)"
  shows "page_step e c idx cur soup \<noteq> Inl x"
proof -
  have "\<forall>item \<in> set (css_select e soup (item_selector c)). \<exists>row. build_row e c item = Inr row"
    using build_fields_text_only[OF assms(1), of e _ "[]"] by (simp add: build_row_def)
  from collect_total[OF this] obtain rows
    where rows: "collect (build_row e c) (css_select e soup (item_selector c)) = Inr rows" by blast
  have "\<exists>r. advance e c idx cur soup = Inr r"
    using assms(2) by (auto simp: advance_def split: option.splits attr_val.splits)
  then show ?thesis by (auto simp: page_step_def rows)
qed

lemma tree_attr_href: "tree_attr n ''href'' \<noteq> Some (AttrList vs)"
  by (cases n) (auto simp: cdata_list_attribute_def split: option.splits)

lemma listing_never_raises:
  "page_step (site_env s) (listing_cfg m) idx cur soup \<noteq> Inl x"
  "page_step loop_env (listing_cfg m) idx cur soup \<noteq> Inl x"
  by (rule page_step_text_only;
      simp add: listing_cfg_def truthy_def site_env_def loop_env_def tree_attr_href)+

lemmas fixture_defs = site_env_def full_site_def broken_site_def page1_def page2_def page3_def
  listing_cfg_def loop_env_def

lemmas eval_defs = scrape_def scrape_loop.simps fetch_page_def advance_def max_pages_of_def
  truthy_def select_one_def tree_select_def resolve_next_def endswith_def rsplit1_def
  build_row_def extract_field_def tree_text_def strip_def isspace_def Let_def
  cdata_list_attribute_def

lemma fetched_pages_total: "fetched_pages e (ms @ [InfoTotal n]) = fetched_pages e ms"
  by (simp add: fetched_pages_append) (simp add: fetched_pages_def)

lemma fetch_calls_total: "fetch_calls (ms @ [InfoTotal n]) = fetch_calls ms"
  by (simp add: fetch_calls_append)

lemma scrape_returnedD:
  "scrape fuel e c = Some (Inr (rows, ms)) \<Longrightarrow>
   \<exists>out. scrape_loop fuel e c (start_url c) 1 [] [] = Returned rows out
     \<and> ms = out @ [InfoTotal (length rows)]"
  by (auto simp: scrape_def split: run.splits)

lemma scrape_raisedD:
  "scrape fuel e c = Some (Inl (x, ms)) \<Longrightarrow>
   scrape_loop fuel e c (start_url c) 1 [] [] = Raised x ms"
  by (auto simp: scrape_def split: run.splits)

lemma scrape_NoneD:
  "scrape fuel e c = None \<Longrightarrow>
   \<exists>u k r ms. scrape_loop fuel e c (start_url c) 1 [] [] = Pending u k r ms"
  by (auto simp: scrape_def split: run.splits)

text \<open>
  C2 (as amended). With \<open>max_pages\<close> set to a positive \<open>N\<close> the run ends within \<open>N\<close>
  iterations, and it returns unless a page raises; it has issued at most \<open>N\<close> requests,
  and exactly \<open>N\<close> when it returns, the start URL is not empty and every request of the
  run succeeds with a page that has a valid next link, so the page limit is checked before
  the next link and wins over it. With \<open>max_pages\<close> absent or zero there is no limit: when
  every request succeeds with a linked page, the engine never returns, and unless a page
  raises it runs for ever.
\<close>

theorem max_pages_bounds_fetches:
  "(max_pages (pagination c) = Some N \<and> 0 < N \<longrightarrow>
      (\<forall>fuel \<ge> nat N. \<exists>r. scrape fuel e c = Some r) \<and>
      ((\<forall>idx cur soup x. page_step e c idx cur soup \<noteq> Inl x) \<longrightarrow>
         (\<forall>fuel \<ge> nat N. \<exists>rows ms. scrape fuel e c = Some (Inr (rows, ms)))) \<and>
      (\<forall>fuel x ms. scrape fuel e c = Some (Inl (x, ms)) \<longrightarrow> fetch_count ms \<le> nat N) \<and>
      (\<forall>fuel rows ms. scrape fuel e c = Some (Inr (rows, ms)) \<longrightarrow>
         fetch_count ms \<le> nat N \<and>
         (start_url c \<noteq> [] \<and> (\<forall>call \<in> set (fetch_calls ms). answers_with_link e c call)
            \<longrightarrow> fetch_count ms = nat N))) \<and>
   ((max_pages (pagination c) = None \<or> max_pages (pagination c) = Some 0) \<and>
      start_url c \<noteq> [] \<and> (\<forall>k url. answers_with_link e c (k, url)) \<longrightarrow>
      (\<forall>fuel rows ms. scrape fuel e c \<noteq> Some (Inr (rows, ms))) \<and>
      ((\<forall>idx cur soup x. page_step e c idx cur soup \<noteq> Inl x) \<longrightarrow>
         (\<forall>fuel. scrape fuel e c = None)))"
proof (intro conjI; rule impI)
  assume a: "max_pages (pagination c) = Some N \<and> 0 < N"
  then have mp: "max_pages_of (pagination c) = Some N" by (simp add: max_pages_of_def)
  have one: "int 1 \<le> N" using a by simp
  have ends: "\<exists>r. scrape fuel e c = Some r" if "nat N \<le> fuel" for fuel
  proof -
    from that have "nat N + 1 \<le> fuel + 1" by simp
    from scrape_loop_terminates[OF mp one this, of e "start_url c"]
    show ?thesis by (auto simp: scrape_def split: run.splits)
  qed
  have returns: "\<exists>rows ms. scrape fuel e c = Some (Inr (rows, ms))"
    if nr: "\<forall>idx cur soup x. page_step e c idx cur soup \<noteq> Inl x" and le: "nat N \<le> fuel" for fuel
  proof -
    from ends[OF le] obtain r where r: "scrape fuel e c = Some r" by blast
    have "\<not> raised_run (scrape_loop fuel e c (start_url c) 1 [] [])"
      using nr by (rule scrape_loop_no_raise)
    then show ?thesis using r by (auto simp: scrape_def split: run.splits)
  qed
  have raised: "fetch_count ms \<le> nat N" if "scrape fuel e c = Some (Inl (x, ms))" for fuel x ms
  proof -
    from scrape_raisedD[OF that] have "run_out (scrape_loop fuel e c (start_url c) 1 [] []) = ms"
      by simp
    then show ?thesis using scrape_loop_bound[OF mp one, of fuel e "start_url c"] by simp
  qed
  have cnt: "fetch_count ms \<le> nat N \<and>
         (start_url c \<noteq> [] \<and> (\<forall>call \<in> set (fetch_calls ms). answers_with_link e c call)
            \<longrightarrow> fetch_count ms = nat N)"
    if s: "scrape fuel e c = Some (Inr (rows, ms))" for fuel rows ms
  proof -
    from scrape_returnedD[OF s] obtain out
      where ret: "scrape_loop fuel e c (start_url c) 1 [] [] = Returned rows out"
        and ms: "ms = out @ [InfoTotal (length rows)]" by blast
    have fc: "fetch_count ms = fetch_count out"
      by (simp add: ms fetch_count_def fetch_calls_total)
    have "fetch_count out + 1 \<le> nat N + 1"
      using scrape_loop_bound[OF mp one, of fuel e "start_url c"] ret by simp
    then have le: "fetch_count ms \<le> nat N" using fc by simp
    have ex: "start_url c \<noteq> [] \<and> (\<forall>call \<in> set (fetch_calls ms). answers_with_link e c call)
            \<longrightarrow> fetch_count ms = nat N"
    proof
      assume h: "start_url c \<noteq> [] \<and> (\<forall>call \<in> set (fetch_calls ms). answers_with_link e c call)"
      then have ne: "start_url c \<noteq> []" by blast
      from h have "\<forall>call \<in> set (fetch_calls out). answers_with_link e c call"
        by (simp add: ms fetch_calls_total)
      from scrape_loop_exact[OF mp one ne ret this] show "fetch_count ms = nat N"
        using fc by simp
    qed
    show ?thesis using le ex by blast
  qed
  show "(\<forall>fuel \<ge> nat N. \<exists>r. scrape fuel e c = Some r) \<and>
      ((\<forall>idx cur soup x. page_step e c idx cur soup \<noteq> Inl x) \<longrightarrow>
         (\<forall>fuel \<ge> nat N. \<exists>rows ms. scrape fuel e c = Some (Inr (rows, ms)))) \<and>
      (\<forall>fuel x ms. scrape fuel e c = Some (Inl (x, ms)) \<longrightarrow> fetch_count ms \<le> nat N) \<and>
      (\<forall>fuel rows ms. scrape fuel e c = Some (Inr (rows, ms)) \<longrightarrow>
         fetch_count ms \<le> nat N \<and>
         (start_url c \<noteq> [] \<and> (\<forall>call \<in> set (fetch_calls ms). answers_with_link e c call)
            \<longrightarrow> fetch_count ms = nat N))"
    using ends returns raised cnt by blast
next
  assume a: "(max_pages (pagination c) = None \<or> max_pages (pagination c) = Some 0) \<and>
      start_url c \<noteq> [] \<and> (\<forall>k url. answers_with_link e c (k, url))"
  then have mp: "max_pages_of (pagination c) = None" by (auto simp: max_pages_of_def)
  from a have ne: "start_url c \<noteq> []" by blast
  from a have al: "\<forall>k url. answers_with_link e c (k, url)" by blast
  have never: "scrape fuel e c \<noteq> Some (Inr (rows, ms))" for fuel rows ms
    using scrape_loop_diverges[OF mp ne al, of fuel 1] by (auto dest!: scrape_returnedD)
  have forever: "scrape fuel e c = None"
    if nr: "\<forall>idx cur soup x. page_step e c idx cur soup \<noteq> Inl x" for fuel
  proof -
    have "\<not> raised_run (scrape_loop fuel e c (start_url c) 1 [] [])"
      using nr by (rule scrape_loop_no_raise)
    then show ?thesis using scrape_loop_diverges[OF mp ne al, of fuel 1]
      by (cases "scrape_loop fuel e c (start_url c) 1 [] []") (auto simp: scrape_def)
  qed
  show "(\<forall>fuel rows ms. scrape fuel e c \<noteq> Some (Inr (rows, ms))) \<and>
      ((\<forall>idx cur soup x. page_step e c idx cur soup \<noteq> Inl x) \<longrightarrow>
         (\<forall>fuel. scrape fuel e c = None))"
    using never forever by blast
qed

lemma listing_run2:
  "scrape 2 (site_env full_site) (listing_cfg (Some 2)) = Some (Inr
     ([[(''title'', Str ''First''), (''tags'', StrList [''a'', ''b''])],
       [(''title'', Str ''Second''), (''tags'', StrList [])],
       [(''title'', Str ''Third''), (''tags'', StrList [''c''])]],
      [InfoFetching 1 ''http://example.com/list/page1'', InfoFound 2 1,
       InfoFetching 2 ''http://example.com/list/page2'', InfoFound 1 2,
       InfoTotal 3]))"
  by (simp add: fixture_defs eval_defs numeral_2_eq_2)

lemma valid_next_link_page1: "valid_next_link loop_env (listing_cfg m) page1"
  by (simp add: valid_next_link_def fixture_defs select_one_def tree_select_def
      cdata_list_attribute_def)

theorem max_pages_bounds_fetches_witness:
  "(\<exists>rows ms. scrape 2 (site_env full_site) (listing_cfg (Some 2)) = Some (Inr (rows, ms))
      \<and> fetch_count ms = 2) \<and>
   scrape 7 loop_env (listing_cfg (Some 0)) = None"
proof -
  let ?e = "site_env full_site" and ?c = "listing_cfg (Some 2)"
  let ?ms = "[InfoFetching 1 ''http://example.com/list/page1'', InfoFound 2 1,
       InfoFetching 2 ''http://example.com/list/page2'', InfoFound 1 2, InfoTotal 3]"
  have mp: "max_pages (pagination ?c) = Some 2 \<and> (0::int) < 2" by (simp add: listing_cfg_def)
  have ne: "start_url ?c \<noteq> []" by (simp add: listing_cfg_def)
  have al: "\<forall>call \<in> set (fetch_calls ?ms). answers_with_link ?e ?c call"
    by (simp add: answers_with_link_def valid_next_link_def fixture_defs select_one_def
        tree_select_def cdata_list_attribute_def)
  have "fetch_count ?ms = nat 2"
    using max_pages_bounds_fetches[of ?c 2 ?e] mp ne al listing_run2 by blast
  then have 1: "\<exists>rows ms. scrape 2 ?e ?c = Some (Inr (rows, ms)) \<and> fetch_count ms = 2"
    using listing_run2 by simp
  have z: "max_pages (pagination (listing_cfg (Some 0))) = Some 0" by (simp add: listing_cfg_def)
  have ne0: "start_url (listing_cfg (Some 0)) \<noteq> []" by (simp add: listing_cfg_def)
  have al0: "\<forall>k url. answers_with_link loop_env (listing_cfg (Some 0)) (k, url)"
    using valid_next_link_page1[of "Some 0"] by (simp add: answers_with_link_def loop_env_def)
  have nr: "\<forall>idx cur soup x. page_step loop_env (listing_cfg (Some 0)) idx cur soup \<noteq> Inl x"
    using listing_never_raises(2) by blast
  have 2: "scrape 7 loop_env (listing_cfg (Some 0)) = None"
    using max_pages_bounds_fetches[of "listing_cfg (Some 0)" 0 loop_env] z ne0 al0 nr by blast
  show ?thesis using 1 2 by blast
qed

text \<open>
  The claim as written fails for an empty start URL: the loop condition is false at once,
  no request is issued, and the run returns no rows, although the page limit is 3 and
  every request would have been answered with a linked page.
\<close>

theorem empty_start_url_counterexample:
  "max_pages (pagination ((listing_cfg (Some 3))\<lparr>start_url := []\<rparr>)) = Some 3 \<and>
   answers_with_link loop_env ((listing_cfg (Some 3))\<lparr>start_url := []\<rparr>) (1, []) \<and>
   scrape 3 loop_env ((listing_cfg (Some 3))\<lparr>start_url := []\<rparr>)
     = Some (Inr ([], [InfoTotal 0])) \<and>
   fetch_calls [InfoTotal 0] = [] \<and>
   fetch_count [InfoTotal 0] \<noteq> nat 3"
  by (simp add: answers_with_link_def valid_next_link_def fixture_defs select_one_def
      tree_select_def scrape_def fetch_count_def cdata_list_attribute_def)

subsection \<open>Fetch failure and the order of the rows\<close>



text \<open>
  C6. The rows a run returns are the rows built from the items of its pages, in the order
  the pages were fetched (pages are numbered 1, 2, ... in that order), and within a page
  one row per selected item in selection order; nothing is dropped or merged, so the
  number of rows is the number of items encountered.
\<close>

theorem scrape_page_major:
  "scrape fuel e c = Some (Inr (rows, ms)) \<Longrightarrow>
   map Inr rows = concat (map (\<lambda>soup. map (build_row e c) (css_select e soup (item_selector c)))
                   (fetched_pages e ms)) \<and>
   length rows = sum_list (map (\<lambda>soup. length (css_select e soup (item_selector c)))
                   (fetched_pages e ms)) \<and>
   map fst (fetch_calls ms) = [1 ..< Suc (fetch_count ms)]"
proof -
  assume s: "scrape fuel e c = Some (Inr (rows, ms))"
  from scrape_returnedD[OF s] obtain out
    where ret: "scrape_loop fuel e c (start_url c) 1 [] [] = Returned rows out"
      and ms: "ms = out @ [InfoTotal (length rows)]" by blast
  have pg: "fetched_pages e ms = fetched_pages e out" by (simp add: ms fetched_pages_total)
  have 1: "map Inr rows = concat (map (\<lambda>soup. map (build_row e c) (css_select e soup (item_selector c)))
                   (fetched_pages e ms))"
    using scrape_loop_rows[of fuel e c "start_url c" 1] ret pg
    by (simp add: page_rows_def[abs_def])
  have len: "length (concat (map (\<lambda>soup. map (build_row e c) (css_select e soup (item_selector c))) ps))
          = sum_list (map (\<lambda>soup. length (css_select e soup (item_selector c))) ps)" for ps
    by (induction ps) auto
  have 2: "length rows = sum_list (map (\<lambda>soup. length (css_select e soup (item_selector c)))
                   (fetched_pages e ms))"
    using arg_cong[OF 1, of length] by (simp only: length_map len)
  have 3: "map fst (fetch_calls ms) = [1 ..< Suc (fetch_count ms)]"
    using scrape_loop_numbering[of fuel e c "start_url c" 1] ret
    by (simp add: ms fetch_calls_total fetch_count_def)
  show ?thesis using 1 2 3 by blast
qed

lemma listing_run3:
  "scrape 3 (site_env full_site) (listing_cfg None) = Some (Inr
     ([[(''title'', Str ''First''), (''tags'', StrList [''a'', ''b''])],
       [(''title'', Str ''Second''), (''tags'', StrList [])],
       [(''title'', Str ''Third''), (''tags'', StrList [''c''])],
       [(''title'', Str ''Fourth''), (''tags'', StrList [])]],
      [InfoFetching 1 ''http://example.com/list/page1'', InfoFound 2 1,
       InfoFetching 2 ''http://example.com/list/page2'', InfoFound 1 2,
       InfoFetching 3 ''http://example.com/list/page3'', InfoFound 1 3,
       InfoTotal 4]))"
  by (simp add: fixture_defs eval_defs numeral_3_eq_3)

theorem scrape_page_major_witness:
  "map Inr
     [[(''title'', Str ''First''), (''tags'', StrList [''a'', ''b''])],
      [(''title'', Str ''Second''), (''tags'', StrList [])],
      [(''title'', Str ''Third''), (''tags'', StrList [''c''])],
      [(''title'', Str ''Fourth''), (''tags'', StrList [])]]
   = concat (map (\<lambda>soup. map (build_row (site_env full_site) (listing_cfg None))
                    (tree_select soup ''li'')) [page1, page2, page3])"
proof -
  let ?e = "site_env full_site" and ?c = "listing_cfg None"
  have pg: "fetched_pages ?e
      [InfoFetching 1 ''http://example.com/list/page1'', InfoFound 2 1,
       InfoFetching 2 ''http://example.com/list/page2'', InfoFound 1 2,
       InfoFetching 3 ''http://example.com/list/page3'', InfoFound 1 3,
       InfoTotal 4] = [page1, page2, page3]"
    by (simp add: fetched_pages_def site_env_def full_site_def)
  have sel: "css_select ?e = tree_select" "item_selector ?c = ''li''"
    by (simp_all add: site_env_def listing_cfg_def)
  from scrape_page_major[OF listing_run3]
  have "map Inr
     [[(''title'', Str ''First''), (''tags'', StrList [''a'', ''b''])],
      [(''title'', Str ''Second''), (''tags'', StrList [])],
      [(''title'', Str ''Third''), (''tags'', StrList [''c''])],
      [(''title'', Str ''Fourth''), (''tags'', StrList [])]]
   = concat (map (\<lambda>soup. map (build_row ?e ?c) (css_select ?e soup (item_selector ?c)))
       (fetched_pages ?e
      [InfoFetching 1 ''http://example.com/list/page1'', InfoFound 2 1,
       InfoFetching 2 ''http://example.com/list/page2'', InfoFound 1 2,
       InfoFetching 3 ''http://example.com/list/page3'', InfoFound 1 3,
       InfoTotal 4]))" by (rule conjunct1)
  then show ?thesis by (simp only: pg sel)
qed

subsection \<open>Field extraction\<close>

lemma strip_Nil: "strip [] = []"
  by (simp add: strip_def)

lemma attr_value_missing: "attr_get e el a = None \<Longrightarrow> attr_value e el a = Inr []"
  by (simp add: attr_value_def strip_Nil)

lemma attr_value_raises:
  "attr_value e el a = Inl x \<longleftrightarrow> x = AttributeError \<and> (\<exists>vs. attr_get e el a = Some (AttrList vs))"
  by (auto simp: attr_value_def split: option.splits attr_val.splits)

lemma collect_raises: "collect f xs = Inl x \<Longrightarrow> \<exists>el \<in> set xs. f el = Inl x"
  by (induction xs) (auto split: sum.splits)

lemma collect_length: "collect f xs = Inr ys \<Longrightarrow> length ys = length xs"
  by (induction xs arbitrary: ys) (auto split: sum.splits)

lemma collect_nth: "collect f xs = Inr ys \<Longrightarrow> i < length xs \<Longrightarrow> f (xs ! i) = Inr (ys ! i)"
  using collect_Inr[of f xs ys] by (metis length_map nth_map)

text \<open>
  Where the extractor returns. Without a match the value is the empty string, or the
  empty sequence for a multi-valued rule; a matched node that lacks the attribute gives
  the empty string; and the value of a multi-valued rule, when there is one, has one
  string per matched node.
\<close>

lemma extract_field_defaults:
  "(\<not> multiple r \<and> css_select e item (selector r) = [] \<longrightarrow> extract_field e item r = Inr (Str [])) \<and>
   (multiple r \<and> css_select e item (selector r) = [] \<longrightarrow> extract_field e item r = Inr (StrList [])) \<and>
   (\<not> multiple r \<and> attr r = Some a \<and> a \<noteq> [] \<and> select_one e item (selector r) = Some el \<and>
      attr_get e el a = None \<longrightarrow> extract_field e item r = Inr (Str []))"
  by (auto simp: extract_field_def select_one_def attr_value_missing split: option.splits)

lemma extract_field_one_per_node:
  assumes "multiple r" "extract_field e item r = Inr v"
  shows "\<exists>vs. v = StrList vs \<and> length vs = length (css_select e item (selector r)) \<and>
           (\<forall>i < length vs. attr r = Some a \<and> a \<noteq> [] \<and>
              attr_get e (css_select e item (selector r) ! i) a = None \<longrightarrow> vs ! i = [])"
proof (cases "truthy (attr r)")
  case False
  then show ?thesis using assms
    by (auto simp: extract_field_def truthy_def Let_def split: option.splits)
next
  case True
  then obtain b where b: "attr r = Some b" "b \<noteq> []"
    by (auto simp: truthy_def split: option.splits)
  let ?els = "css_select e item (selector r)"
  from assms b obtain vs where c: "collect (\<lambda>el. attr_value e el b) ?els = Inr vs"
    and v: "v = StrList vs"
    by (auto simp: extract_field_def Let_def split: sum.splits)
  have len: "length vs = length ?els" using c by (rule collect_length)
  have "vs ! i = []" if "i < length vs" "attr r = Some a" "attr_get e (?els ! i) a = None" for i
  proof -
    from that(2) b have ab: "a = b" by simp
    from that(1) len have "i < length ?els" by simp
    from collect_nth[OF c this] have "attr_value e (?els ! i) b = Inr (vs ! i)" .
    then show ?thesis using attr_value_missing[OF that(3)] by (simp add: ab)
  qed
  then show ?thesis using v len by blast
qed

text \<open>
  Where it raises: only on a rule with an attribute, at a matched node whose value for
  that attribute is a list.
\<close>

lemma extract_field_raises:
  assumes "extract_field e item r = Inl x"
  shows "x = AttributeError \<and>
         (\<exists>a el vs. attr r = Some a \<and> a \<noteq> [] \<and> el \<in> set (css_select e item (selector r)) \<and>
            attr_get e el a = Some (AttrList vs))"
proof (cases "multiple r")
  case True
  with assms obtain a where a: "attr r = Some a" "a \<noteq> []"
    and c: "collect (\<lambda>el. attr_value e el a) (css_select e item (selector r)) = Inl x"
    by (auto simp: extract_field_def Let_def split: option.splits if_splits sum.splits)
  from collect_raises[OF c] obtain el where "el \<in> set (css_select e item (selector r))"
    and "attr_value e el a = Inl x" by blast
  then show ?thesis using a by (auto simp: attr_value_raises)
next
  case False
  with assms obtain a el where a: "attr r = Some a" "a \<noteq> []"
    and s: "select_one e item (selector r) = Some el" and v: "attr_value e el a = Inl x"
    by (auto simp: extract_field_def split: option.splits if_splits sum.splits)
  from s have "el \<in> set (css_select e item (selector r))"
    by (auto simp: select_one_def split: list.splits)
  then show ?thesis using a v by (auto simp: attr_value_raises)
qed

text \<open>
  C4. The claim holds of a missing match and of a missing attribute, as the lemmas above
  show. It fails where the attribute is there: the HTML library gives the value of a
  multi-valued attribute, such as \<open>class\<close>, as a list, and the extractor calls \<open>strip\<close> on
  it as on a string, which raises \<^verbatim>\<open>AttributeError\<close>. The item
  \<^verbatim>\<open><li><a class="btn primary" href="/x">go</a></li>\<close> has one node matching \<open>a\<close>, whose
  \<open>class\<close> is the list of \<open>btn\<close> and \<open>primary\<close>; the rule that reads \<open>class\<close> from \<open>a\<close>
  raises on it, single-valued or multi-valued, where the claim has the matched node
  contribute one string; and the run over the page with that item ends with the exception
  after its first request, returning no records.
\<close>

theorem extract_field_list_attribute_raises:
  "css_select (site_env []) class_item ''a''
     = [Element ''a'' [(''class'', ''btn primary''), (''href'', ''/x'')] [Text ''go'']] \<and>
   attr_get (site_env []) (Element ''a'' [(''class'', ''btn primary''), (''href'', ''/x'')] [Text ''go''])
     ''class'' = Some (AttrList [''btn'', ''primary'']) \<and>
   extract_field (site_env []) class_item (attr_rule ''a'' ''class'' True) = Inl AttributeError \<and>
   extract_field (site_env []) class_item (attr_rule ''a'' ''class'' False) = Inl AttributeError \<and>
   scrape 1 (site_env class_site) class_cfg
     = Some (Inl (AttributeError, [InfoFetching 1 ''http://example.com/c'', InfoFound 1 1]))"
proof -
  let ?el = "Element ''a'' [(''class'', ''btn primary''), (''href'', ''/x'')] [Text ''go'']"
  have sel: "css_select (site_env []) class_item ''a'' = [?el]"
    by (simp add: site_env_def class_item_def tree_select_def)
  have get: "attr_get (site_env []) ?el ''class'' = Some (AttrList [''btn'', ''primary''])"
    by (simp add: site_env_def cdata_list_attribute_def isspace_def)
  have many: "extract_field (site_env []) class_item (attr_rule ''a'' ''class'' True)
                = Inl AttributeError"
    by (simp add: extract_field_def attr_rule_def sel attr_value_def get)
  have one: "extract_field (site_env []) class_item (attr_rule ''a'' ''class'' False)
               = Inl AttributeError"
    by (simp add: extract_field_def attr_rule_def select_one_def sel attr_value_def get)
  have run: "scrape 1 (site_env class_site) class_cfg
     = Some (Inl (AttributeError, [InfoFetching 1 ''http://example.com/c'', InfoFound 1 1]))"
    by (simp add: site_env_def class_site_def class_cfg_def class_item_def attr_rule_def
          attr_value_def eval_defs)
  show ?thesis using sel get many one run by simp
qed

lemma last_dropWhile_nonempty: "dropWhile P xs \<noteq> [] \<Longrightarrow> last (dropWhile P xs) = last xs"
  by (induction xs) (auto split: if_splits)

lemma strip_ends:
  assumes "strip s \<noteq> []"
  shows "\<not> isspace (hd (strip s)) \<and> \<not> isspace (last (strip s))"
proof -
  let ?d = "dropWhile isspace s"
  let ?r = "dropWhile isspace (rev ?d)"
  have st: "strip s = rev ?r" by (simp add: strip_def)
  from assms have r: "?r \<noteq> []" by (simp add: st)
  have d: "?d \<noteq> []"
  proof
    assume "?d = []"
    then have "?r = []" by (simp only: rev.simps(1) dropWhile.simps(1))
    with r show False by blast
  qed
  have "\<not> isspace (hd ?r)" using r by (rule hd_dropWhile)
  then have l: "\<not> isspace (last (strip s))" using r by (simp add: st last_rev)
  have "last ?r = last (rev ?d)" using r by (rule last_dropWhile_nonempty)
  also have "\<dots> = hd ?d" using d by (simp add: last_rev)
  finally have "hd (strip s) = hd ?d" using r by (simp add: st hd_rev)
  moreover have "\<not> isspace (hd ?d)" using d by (rule hd_dropWhile)
  ultimately show ?thesis using l by simp
qed

lemma strip_id:
  assumes "s \<noteq> []" "\<not> isspace (hd s)" "\<not> isspace (last s)"
  shows "strip s = s"
proof -
  have 1: "dropWhile isspace s = s" using assms(1,2) by (cases s) auto
  have "dropWhile isspace (rev s) = rev s"
    using assms(1,3) by (cases s rule: rev_cases) auto
  then show ?thesis by (simp add: strip_def 1)
qed

lemma last_concat_nonempty:
  "xs \<noteq> [] \<Longrightarrow> last xs \<noteq> [] \<Longrightarrow> last (concat xs) = last (last xs)"
  by (induction xs rule: rev_induct) auto

lemma tree_text_trimmed: "strip (tree_text n) = tree_text n"
proof -
  let ?xs = "filter (\<lambda>s. s \<noteq> []) (map strip (strings n))"
  show ?thesis
  proof (cases "?xs = []")
    case True
    then show ?thesis by (simp add: tree_text_def strip_def)
  next
    case False
    have all: "\<forall>x \<in> set ?xs. x \<noteq> [] \<and> \<not> isspace (hd x) \<and> \<not> isspace (last x)"
      using strip_ends by auto
    have h: "hd ?xs \<in> set ?xs" using False by (rule hd_in_set)
    have l: "last ?xs \<in> set ?xs" using False by (rule last_in_set)
    have hn: "hd ?xs \<noteq> []" and ln: "last ?xs \<noteq> []" using all h l by blast+
    have ne: "concat ?xs \<noteq> []" using False hn by (cases ?xs) auto
    have "hd (concat ?xs) = hd (hd ?xs)" using False hn by (rule hd_concat)
    then have 1: "\<not> isspace (hd (concat ?xs))" using all h by metis
    have "last (concat ?xs) = last (last ?xs)" using False ln by (rule last_concat_nonempty)
    then have 2: "\<not> isspace (last (concat ?xs))" using all l by metis
    show ?thesis unfolding tree_text_def using ne 1 2 by (rule strip_id)
  qed
qed

text \<open>
  C5 (as amended). For a matched node and a rule without an attribute (absent or empty),
  the extractor returns, and the string it produces is exactly the text the HTML library
  returns for the node in strip mode; the extractor does no trimming or collapsing of its
  own. On element trees that text is the concatenation, without separator, of the stripped
  non-empty text strings below the node: it has no whitespace at either end, and
  whitespace inside a text string stays as it is.
\<close>

theorem extract_field_text:
  "\<not> truthy (attr r) \<Longrightarrow>
   (\<not> multiple r \<and> select_one e item (selector r) = Some el
      \<longrightarrow> extract_field e item r = Inr (Str (text_strip e el))) \<and>
   (multiple r
      \<longrightarrow> extract_field e item r
            = Inr (StrList (map (text_strip e) (css_select e item (selector r))))) \<and>
   strip (tree_text n) = tree_text n"
  by (auto simp: extract_field_def truthy_def tree_text_trimmed split: option.splits)

theorem extract_field_text_witness:
  "extract_field (site_env []) spaced_item (text_rule ''h2'' False) = Inr (Str ''First   item'') \<and>
   extract_field (site_env []) spaced_item (text_rule ''p'' True) = Inr (StrList [''Helloworld''])"
proof -
  let ?e = "site_env []"
  have t: "\<not> truthy (attr (text_rule sel m))" for sel m
    by (simp add: truthy_def text_rule_def)
  have s1: "select_one ?e spaced_item (selector (text_rule ''h2'' False))
              = Some (Element ''h2'' [] [Text '' First   item ''])"
    by (simp add: select_one_def site_env_def spaced_item_def tree_select_def text_rule_def)
  have s2: "css_select ?e spaced_item (selector (text_rule ''p'' True))
              = [Element ''p'' [] [Text ''Hello '', Element ''b'' [] [Text ''world'']]]"
    by (simp add: site_env_def spaced_item_def tree_select_def text_rule_def)
  have x1: "text_strip ?e (Element ''h2'' [] [Text '' First   item '']) = ''First   item''"
    by (simp add: site_env_def tree_text_def strip_def isspace_def)
  have x2: "text_strip ?e (Element ''p'' [] [Text ''Hello '', Element ''b'' [] [Text ''world'']])
              = ''Helloworld''"
    by (simp add: site_env_def tree_text_def strip_def isspace_def)
  have m: "\<not> multiple (text_rule ''h2'' False)" "multiple (text_rule ''p'' True)"
    by (simp_all add: text_rule_def)
  have 1: "extract_field ?e spaced_item (text_rule ''h2'' False) = Inr (Str ''First   item'')"
    using extract_field_text[OF t, of "''h2''" False ?e spaced_item] s1 m(1) x1 by simp
  have 2: "extract_field ?e spaced_item (text_rule ''p'' True) = Inr (StrList [''Helloworld''])"
    using extract_field_text[OF t, of "''p''" True ?e spaced_item] s2 m(2) x2 by simp
  show ?thesis using 1 2 by simp
qed

text \<open>
  The claim as written fails on a heading whose text has three spaces in a row: the
  extracted string keeps them.
\<close>

theorem text_not_collapsed_counterexample:
  "select_one (site_env []) spaced_item ''h2'' = Some (Element ''h2'' [] [Text '' First   item '']) \<and>
   extract_field (site_env []) spaced_item (text_rule ''h2'' False) = Inr (Str ''First   item'') \<and>
   \<not> ws_collapsed ''First   item''"
  by (simp add: extract_field_def text_rule_def select_one_def site_env_def spaced_item_def
      tree_select_def tree_text_def strip_def isspace_def ws_collapsed_def)

subsection \<open>The shape of the records\<close>

lemma dict_set_fresh: "k \<notin> set (map fst d) \<Longrightarrow> dict_set d k v = d @ [(k, v)]"
  by (induction d) auto

lemma foldl_dict_set:
  "distinct (map fst xs) \<Longrightarrow> set (map fst xs) \<inter> set (map fst acc) = {} \<Longrightarrow>
   foldl (\<lambda>d (k, x). dict_set d k (f x)) acc xs = acc @ map (\<lambda>(k, x). (k, f x)) xs"
proof (induction xs arbitrary: acc)
  case Nil
  show ?case by simp
next
  case (Cons p xs)
  obtain k x where p: "p = (k, x)" by (cases p)
  have fresh: "k \<notin> set (map fst acc)" using Cons.prems(2) by (auto simp: p)
  have d: "distinct (map fst xs)" using Cons.prems(1) by simp
  have "set (map fst xs) \<inter> set (map fst (acc @ [(k, f x)])) = {}"
    using Cons.prems by (auto simp: p)
  from Cons.IH[OF d this] show ?case by (simp add: p dict_set_fresh[OF fresh])
qed

lemma build_fields_entries:
  "build_fields e item acc fs = Inr row \<Longrightarrow> distinct (map fst fs) \<Longrightarrow>
   set (map fst fs) \<inter> set (map fst acc) = {} \<Longrightarrow>
   \<exists>ents. row = acc @ ents \<and>
     list_all2 (\<lambda>(name, cfg) (k, v). k = name \<and> extract_field e item cfg = Inr v) fs ents"
proof (induction fs arbitrary: acc)
  case Nil
  then show ?case by simp
next
  case (Cons p fs)
  obtain name cfg where p: "p = (name, cfg)" by (cases p)
  from Cons.prems(1) obtain v where v: "extract_field e item cfg = Inr v"
    and rest: "build_fields e item (dict_set acc name v) fs = Inr row"
    by (auto simp: p split: sum.splits)
  have fresh: "name \<notin> set (map fst acc)" using Cons.prems(3) by (auto simp: p)
  have d: "distinct (map fst fs)" using Cons.prems(2) by simp
  have "set (map fst fs) \<inter> set (map fst (acc @ [(name, v)])) = {}"
    using Cons.prems(2,3) by (auto simp: p)
  from Cons.IH[OF rest[unfolded dict_set_fresh[OF fresh]] d this]
  obtain ents where row: "row = (acc @ [(name, v)]) @ ents"
    and ents: "list_all2 (\<lambda>(name, cfg) (k, v). k = name \<and> extract_field e item cfg = Inr v) fs ents"
    by blast
  have "list_all2 (\<lambda>(name, cfg) (k, v). k = name \<and> extract_field e item cfg = Inr v)
          (p # fs) ((name, v) # ents)"
    using ents v by (simp add: p)
  moreover have "row = acc @ (name, v) # ents" using row by simp
  ultimately show ?case by blast
qed

lemma entries_keys:
  "list_all2 (\<lambda>(name, cfg) (k, v). k = name \<and> P cfg v) fs ents \<Longrightarrow> map fst ents = map fst fs"
  by (induction rule: list_all2_induct) auto

lemma entries_lookup:
  "list_all2 (\<lambda>(name, cfg) (k, v). k = name \<and> P cfg v) fs ents \<Longrightarrow> distinct (map fst fs) \<Longrightarrow>
   (name, cfg) \<in> set fs \<Longrightarrow> \<exists>v. map_of ents name = Some v \<and> P cfg v"
proof (induction rule: list_all2_induct)
  case Nil
  then show ?case by simp
next
  case (Cons x xs y ys)
  then show ?case by (cases x; cases y) (auto simp: rev_image_eqI)
qed

lemma build_row_entries:
  assumes "distinct (dict_keys (fields_map c))" "build_row e c item = Inr row"
  shows "dict_keys row = dict_keys (fields_map c)"
    and "(name, cfg) \<in> set (fields_map c) \<Longrightarrow>
         \<exists>v. dict_get row name = Some v \<and> extract_field e item cfg = Inr v"
proof -
  from build_fields_entries[of e item "[]" "fields_map c" row] assms
  have ents: "list_all2 (\<lambda>(name, cfg) (k, v). k = name \<and> extract_field e item cfg = Inr v)
                (fields_map c) row"
    by (simp add: build_row_def dict_keys_def)
  show "dict_keys row = dict_keys (fields_map c)"
    using entries_keys[OF ents] by (simp add: dict_keys_def)
  show "\<exists>v. dict_get row name = Some v \<and> extract_field e item cfg = Inr v"
    if "(name, cfg) \<in> set (fields_map c)"
    using entries_lookup[OF ents _ that] assms(1) by (simp add: dict_keys_def dict_get_def)
qed

lemma is_list_extract_field: "extract_field e item r = Inr v \<Longrightarrow> is_list v = multiple r"
  by (auto simp: extract_field_def is_list_def Let_def split: option.splits if_splits sum.splits)

lemma scrape_rows:
  "scrape fuel e c = Some (Inr (rows, ms)) \<Longrightarrow>
   map Inr rows = concat (map (page_rows e c) (fetched_pages e ms))"
proof -
  assume s: "scrape fuel e c = Some (Inr (rows, ms))"
  from scrape_returnedD[OF s] obtain out
    where ret: "scrape_loop fuel e c (start_url c) 1 [] [] = Returned rows out"
      and ms: "ms = out @ [InfoTotal (length rows)]" by blast
  show ?thesis using scrape_loop_rows[of fuel e c "start_url c" 1] ret
    by (simp add: ms fetched_pages_total)
qed

lemma scrape_row_built:
  assumes "scrape fuel e c = Some (Inr (rows, ms))" "row \<in> set rows"
  shows "\<exists>item. build_row e c item = Inr row"
proof -
  from assms(2) have "(Inr row :: py_exception + row) \<in> set (map Inr rows)" by simp
  then have "Inr row \<in> set (concat (map (page_rows e c) (fetched_pages e ms)))"
    by (simp only: scrape_rows[OF assms(1)])
  then show ?thesis by (auto simp: page_rows_def)
qed

text \<open>
  C7. Field names are the keys of a dictionary, hence distinct. Every record a run returns
  has exactly the field names of the configuration, in their order, so the keys of the
  first record are the keys of every record; and the value of each field is a sequence
  of strings when the rule's \<open>multiple\<close> flag is set and a single string when it is not,
  the same in every record.
\<close>

theorem rows_uniform_schema:
  "distinct (dict_keys (fields_map c)) \<Longrightarrow> scrape fuel e c = Some (Inr (rows, ms)) \<Longrightarrow>
   row \<in> set rows \<Longrightarrow>
   dict_keys row = dict_keys (fields_map c) \<and>
   dict_keys row = dict_keys (hd rows) \<and>
   (\<forall>(name, rule) \<in> set (fields_map c).
      \<exists>v. dict_get row name = Some v \<and> is_list v = multiple rule)"
proof -
  assume dist: "distinct (dict_keys (fields_map c))"
    and s: "scrape fuel e c = Some (Inr (rows, ms))" and mem: "row \<in> set rows"
  have keys: "dict_keys r = dict_keys (fields_map c)" if "r \<in> set rows" for r
  proof -
    from scrape_row_built[OF s that] obtain item where "build_row e c item = Inr r" by blast
    from build_row_entries(1)[OF dist this] show ?thesis .
  qed
  from mem have "rows \<noteq> []" by auto
  then have "hd rows \<in> set rows" by (rule hd_in_set)
  then have first: "dict_keys row = dict_keys (hd rows)" using keys mem by simp
  from scrape_row_built[OF s mem] obtain item where row: "build_row e c item = Inr row" by blast
  have shape: "\<forall>(name, rule) \<in> set (fields_map c).
      \<exists>v. dict_get row name = Some v \<and> is_list v = multiple rule"
  proof (intro ballI, clarify)
    fix name rule assume "(name, rule) \<in> set (fields_map c)"
    from build_row_entries(2)[OF dist row this]
    show "\<exists>v. dict_get row name = Some v \<and> is_list v = multiple rule"
      by (auto dest: is_list_extract_field)
  qed
  show ?thesis using keys[OF mem] first shape by blast
qed

theorem rows_uniform_schema_witness:
  "dict_keys [(''title'', Str ''Third''), (''tags'', StrList [''c''])] = [''title'', ''tags''] \<and>
   (\<exists>v. dict_get [(''title'', Str ''Third''), (''tags'', StrList [''c''])] ''title'' = Some v
      \<and> is_list v = False) \<and>
   (\<exists>v. dict_get [(''title'', Str ''Third''), (''tags'', StrList [''c''])] ''tags'' = Some v
      \<and> is_list v = True)"
proof -
  let ?c = "listing_cfg None" and ?row = "[(''title'', Str ''Third''), (''tags'', StrList [''c''])]"
  have d: "distinct (dict_keys (fields_map ?c))" by (simp add: listing_cfg_def dict_keys_def)
  have k: "dict_keys (fields_map ?c) = [''title'', ''tags'']"
    by (simp add: listing_cfg_def dict_keys_def)
  have m: "?row \<in> set [[(''title'', Str ''First''), (''tags'', StrList [''a'', ''b''])],
       [(''title'', Str ''Second''), (''tags'', StrList [])],
       [(''title'', Str ''Third''), (''tags'', StrList [''c''])],
       [(''title'', Str ''Fourth''), (''tags'', StrList [])]]" by simp
  have f1: "(''title'', \<lparr>selector = ''h2'', attr = None, multiple = False\<rparr>) \<in> set (fields_map ?c)"
    by (simp add: listing_cfg_def)
  have f2: "(''tags'', \<lparr>selector = ''span'', attr = None, multiple = True\<rparr>) \<in> set (fields_map ?c)"
    by (simp add: listing_cfg_def)
  note inst = rows_uniform_schema[OF d listing_run3 m]
  from inst have 1: "dict_keys ?row = [''title'', ''tags'']" by (simp only: k)
  from inst have all: "\<forall>(name, rule) \<in> set (fields_map ?c).
      \<exists>v. dict_get ?row name = Some v \<and> is_list v = multiple rule" by blast
  have 2: "\<exists>v. dict_get ?row ''title'' = Some v \<and> is_list v = False"
    using bspec[OF all f1] by simp
  have 3: "\<exists>v. dict_get ?row ''tags'' = Some v \<and> is_list v = True"
    using bspec[OF all f2] by simp
  show ?thesis using 1 2 3 by blast
qed

subsection \<open>The files written\<close>







subsection \<open>The CSV document\<close>

lemma row_to_write_distinct:
  "distinct (dict_keys r) \<Longrightarrow> row_to_write r = map (\<lambda>(k, v). (k, csv_cell v)) r"
  using foldl_dict_set[of r "[]" csv_cell] by (simp add: row_to_write_def dict_keys_def)

lemma map_of_own_keys:
  "distinct (map fst d) \<Longrightarrow>
   map (\<lambda>k. case map_of d k of None \<Rightarrow> [] | Some s \<Rightarrow> s) (map fst d) = map snd d"
proof (induction d)
  case Nil
  show ?case by simp
next
  case (Cons p d)
  obtain k v where p: "p = (k, v)" by (cases p)
  have nk: "k \<notin> fst ` set d" and dd: "distinct (map fst d)" using Cons.prems by (auto simp: p)
  have "map (\<lambda>k'. case map_of ((k, v) # d) k' of None \<Rightarrow> [] | Some s \<Rightarrow> s) (map fst d)
          = map (\<lambda>k'. case map_of d k' of None \<Rightarrow> [] | Some s \<Rightarrow> s) (map fst d)"
    using nk by (intro map_cong) auto
  then show ?case using Cons.IH[OF dd] by (simp add: p)
qed

lemma writerow_own_keys:
  assumes "distinct (dict_keys d)"
  shows "writerow (dict_keys d) d = Inr (map snd d)"
proof -
  have "map (\<lambda>k. case dict_get d k of None \<Rightarrow> [] | Some s \<Rightarrow> s) (dict_keys d) = map snd d"
    unfolding dict_get_def dict_keys_def using assms[unfolded dict_keys_def]
    by (rule map_of_own_keys)
  then show ?thesis unfolding writerow_def by (simp only: subset_refl simp_thms if_False)
qed

lemma writerow_row:
  "distinct (dict_keys r) \<Longrightarrow>
   writerow (dict_keys r) (row_to_write r) = Inr (map (\<lambda>(k, v). csv_cell v) r)"
proof -
  assume d: "distinct (dict_keys r)"
  let ?w = "map (\<lambda>(k, v). (k, csv_cell v)) r"
  have k: "dict_keys ?w = dict_keys r" by (simp add: dict_keys_def case_prod_unfold comp_def)
  have v: "map snd ?w = map (\<lambda>(k, v). csv_cell v) r" by (simp add: case_prod_unfold comp_def)
  have "distinct (dict_keys ?w)" using d by (simp only: k)
  then have "writerow (dict_keys ?w) ?w = Inr (map snd ?w)" by (rule writerow_own_keys)
  then show ?thesis by (simp only: row_to_write_distinct[OF d] k v)
qed

lemma write_rows_uniform:
  "\<forall>r \<in> set rs. distinct (dict_keys r) \<and> dict_keys r = fieldnames \<Longrightarrow>
   write_rows fieldnames rs doc = (None, doc @ map (\<lambda>r. map (\<lambda>(k, v). csv_cell v) r) rs)"
proof (induction rs arbitrary: doc)
  case Nil
  show ?case by simp
next
  case (Cons r rs)
  have "r \<in> set (r # rs)" by simp
  with Cons.prems have d: "distinct (dict_keys r)" and k: "dict_keys r = fieldnames"
    by blast+
  have rest: "\<forall>r \<in> set rs. distinct (dict_keys r) \<and> dict_keys r = fieldnames"
    using Cons.prems by (meson list.set_intros(2))
  have w: "writerow fieldnames (row_to_write r) = Inr (map (\<lambda>(k, v). csv_cell v) r)"
    using writerow_row[OF d] by (simp only: k)
  show ?case using Cons.IH[OF rest, of "doc @ [map (\<lambda>(k, v). csv_cell v) r]"]
    by (simp add: w)
qed

text \<open>
  C8. An empty result set writes no CSV file and prints the warning. A non-empty result
  set (records with distinct keys, the same in every record) is written as the header
  row of the first record's keys followed by one row per record, each value in its
  column; a list value becomes one cell, its elements joined with a comma and a space,
  and a string value is the cell itself.
\<close>

theorem save_as_csv_flattens:
  "save_as_csv [] = (None, [WarnNoCsv], None) \<and>
   (rows \<noteq> [] \<and> (\<forall>r \<in> set rows. distinct (dict_keys r) \<and> dict_keys r = dict_keys (hd rows))
      \<longrightarrow> save_as_csv rows
            = (Some (dict_keys (hd rows) # map (\<lambda>r. map (\<lambda>(k, v). csv_cell v) r) rows),
               [InfoSavedCsv], None)) \<and>
   csv_cell (Str s) = s \<and>
   csv_cell (StrList xs) = str_join '', '' xs"
proof (intro conjI)
  show "save_as_csv [] = (None, [WarnNoCsv], None)" by (simp add: save_as_csv_def)
  show "rows \<noteq> [] \<and> (\<forall>r \<in> set rows. distinct (dict_keys r) \<and> dict_keys r = dict_keys (hd rows))
      \<longrightarrow> save_as_csv rows
            = (Some (dict_keys (hd rows) # map (\<lambda>r. map (\<lambda>(k, v). csv_cell v) r) rows),
               [InfoSavedCsv], None)"
  proof
    assume a: "rows \<noteq> [] \<and> (\<forall>r \<in> set rows. distinct (dict_keys r) \<and> dict_keys r = dict_keys (hd rows))"
    then obtain r0 rest where rows: "rows = r0 # rest" by (cases rows) auto
    from a have "\<forall>r \<in> set rows. distinct (dict_keys r) \<and> dict_keys r = dict_keys r0"
      by (simp add: rows)
    from write_rows_uniform[OF this, of "[dict_keys r0]"]
    show "save_as_csv rows
            = (Some (dict_keys (hd rows) # map (\<lambda>r. map (\<lambda>(k, v). csv_cell v) r) rows),
               [InfoSavedCsv], None)"
      by (simp add: save_as_csv_def rows)
  qed
  show "csv_cell (Str s) = s" by (simp add: csv_cell_def)
  show "csv_cell (StrList xs) = str_join '', '' xs" by (simp add: csv_cell_def)
qed

theorem save_as_csv_flattens_witness:
  "save_as_csv tag_rows = (Some [[''title'', ''tags''], [''First'', ''a, b'']], [InfoSavedCsv], None)"
proof -
  have h: "tag_rows \<noteq> [] \<and>
      (\<forall>r \<in> set tag_rows. distinct (dict_keys r) \<and> dict_keys r = dict_keys (hd tag_rows))"
    by (simp add: tag_rows_def dict_keys_def)
  note inst = save_as_csv_flattens[of tag_rows "''First''" "[''a'', ''b'']"]
  from inst h have 1: "save_as_csv tag_rows
      = (Some (dict_keys (hd tag_rows) # map (\<lambda>r. map (\<lambda>(k, v). csv_cell v) r) tag_rows),
         [InfoSavedCsv], None)" by blast
  from inst have 2: "csv_cell (Str ''First'') = ''First''" by blast
  from inst have 3: "csv_cell (StrList [''a'', ''b'']) = str_join '', '' [''a'', ''b'']" by blast
  have 4: "dict_keys (hd tag_rows) = [''title'', ''tags'']" by (simp add: tag_rows_def dict_keys_def)
  have 5: "map (\<lambda>r. map (\<lambda>(k, v). csv_cell v) r) tag_rows
             = [[csv_cell (Str ''First''), csv_cell (StrList [''a'', ''b''])]]"
    by (simp add: tag_rows_def)
  have 6: "str_join '', '' [''a'', ''b''] = ''a, b''" by simp
  show ?thesis unfolding 1 4 5 2 3 6 by (rule refl)
qed

end
